theory Spec2Isabelle
  imports Main "HOL-Library.Word"
begin

section \<open>Bytes, slices and fixed-width fields\<close>

text \<open>
  The buffer read from the archive is a Python \<open>bytes\<close> object: a list of 8-bit words.
  Offsets and lengths are Python integers that never go negative in this program
  (results of \<open>find\<close>, sums of unsigned fields), so they are natural numbers.
  A decoded filename is a Python \<open>str\<close>: a list of Unicode code points.
\<close>

type_synonym byte = "8 word"
type_synonym pystr = "nat list"

text \<open>
  The exceptions the repair pass can meet: \<open>struct.error\<close> when \<open>struct.unpack\<close> is
  given a slice of the wrong length, \<open>UnboundLocalError\<close> when a local variable is read
  before any assignment, and whatever the archive writer raises.
\<close>

datatype exn = StructError | UnboundLocalError | WriteError

text \<open>
  \<open>data[a:b]\<close> for non-negative \<open>a\<close> and \<open>b\<close>: both bounds are clipped to the length and
  an inverted range is empty. Slicing never raises.
\<close>

definition slice :: "'a list \<Rightarrow> nat \<Rightarrow> nat \<Rightarrow> 'a list" where
  "slice xs a b = take (b - a) (drop a xs)"

text \<open>\<open>struct.unpack('<H', bs)[0]\<close>: exactly two bytes, little-endian.\<close>

definition unpack_H :: "byte list \<Rightarrow> exn + nat" where
  "unpack_H bs =
     (case bs of
        [b0, b1] \<Rightarrow> Inr (unat b0 + 256 * unat b1)
      | _ \<Rightarrow> Inl StructError)"

text \<open>\<open>struct.unpack('<I', bs)[0]\<close>: exactly four bytes, little-endian.\<close>

definition unpack_I :: "byte list \<Rightarrow> exn + nat" where
  "unpack_I bs =
     (case bs of
        [b0, b1, b2, b3] \<Rightarrow>
          Inr (unat b0 + 256 * unat b1 + 65536 * unat b2 + 16777216 * unat b3)
      | _ \<Rightarrow> Inl StructError)"

section \<open>The signature scanner\<close>

definition LOCAL_FILE_HEADER :: "byte list" where
  "LOCAL_FILE_HEADER = [0x50, 0x4B, 0x03, 0x04]"

definition CENTRAL_DIR_HEADER :: "byte list" where
  "CENTRAL_DIR_HEADER = [0x50, 0x4B, 0x01, 0x02]"

definition END_OF_CENTRAL_DIR :: "byte list" where
  "END_OF_CENTRAL_DIR = [0x50, 0x4B, 0x05, 0x06]"

text \<open>
  What the scanner is to find: \<open>sub\<close> occurs in the buffer at byte offset \<open>p\<close>.
\<close>

definition occurs_at :: "byte list \<Rightarrow> byte list \<Rightarrow> nat \<Rightarrow> bool" where
  "occurs_at data sub p \<longleftrightarrow>
     p + length sub \<le> length data \<and> slice data p (p + length sub) = sub"

text \<open>
  \<open>data.find(sub, start)\<close>: the lowest index at or after \<open>start\<close> where \<open>sub\<close> occurs
  inside the buffer; \<open>None\<close> stands for Python's \<open>-1\<close>.
\<close>

function find_bytes :: "byte list \<Rightarrow> byte list \<Rightarrow> nat \<Rightarrow> nat option" where
  "find_bytes data sub start =
     (if length data < start + length sub then None
      else if slice data start (start + length sub) = sub then Some start
      else find_bytes data sub (start + 1))"
  by pat_completeness auto
termination
proof (relation "measure (\<lambda>(data, sub, start). length data - start)")
  show "wf (measure (\<lambda>(data, sub, start). length data - start))"
    by simp
next
  fix data sub :: "byte list" and start :: nat
  assume fits: "\<not> length data < start + length sub"
    and differs: "slice data start (start + length sub) \<noteq> sub"
  from differs have "sub \<noteq> []"
    by (auto simp: slice_def)
  with fits have "start < length data"
    by (cases sub) auto
  then show "((data, sub, start + 1), (data, sub, start))
      \<in> measure (\<lambda>(data, sub, start). length data - start)"
    by simp
qed

declare find_bytes.simps [simp del]

text \<open>
  \<open>data.rfind(sub)\<close>: the highest index where \<open>sub\<close> occurs inside the buffer, searched
  downwards from the last position where it could fit.
\<close>

fun rfind_from :: "byte list \<Rightarrow> byte list \<Rightarrow> nat \<Rightarrow> nat option" where
  "rfind_from data sub 0 =
     (if slice data 0 (length sub) = sub then Some 0 else None)"
| "rfind_from data sub (Suc n) =
     (if slice data (Suc n) (Suc n + length sub) = sub then Some (Suc n)
      else rfind_from data sub n)"

definition rfind_bytes :: "byte list \<Rightarrow> byte list \<Rightarrow> nat option" where
  "rfind_bytes data sub =
     (if length data < length sub then None
      else rfind_from data sub (length data - length sub))"

text \<open>
  The scanning loop of \<open>find_file_signatures\<close>, written twice in the source (once per
  signature): search from \<open>offset\<close>, stop at \<open>-1\<close>, otherwise record the match and go on
  from \<open>match + 4\<close>.
\<close>

function scan_all :: "byte list \<Rightarrow> byte list \<Rightarrow> nat \<Rightarrow> nat list" where
  "scan_all data sig offset =
     (case find_bytes data sig offset of
        None \<Rightarrow> []
      | Some p \<Rightarrow> p # scan_all data sig (p + 4))"
  by pat_completeness auto
termination
proof (relation "measure (\<lambda>(data, sig, offset). length data + 1 - offset)")
  show "wf (measure (\<lambda>(data, sig, offset). length data + 1 - offset))"
    by simp
next
  fix data sig :: "byte list" and offset p :: nat
  assume found: "find_bytes data sig offset = Some p"
  have "find_bytes data sig s = Some p \<Longrightarrow> s \<le> p \<and> p \<le> length data" for s
  proof (induction data sig s rule: find_bytes.induct)
    case (1 data sub start)
    then show ?case
      by (simp add: find_bytes.simps [of data sub start] split: if_splits)
  qed
  with found have "offset \<le> p" and "p \<le> length data"
    by blast+
  then show "((data, sig, p + 4), (data, sig, offset))
      \<in> measure (\<lambda>(data, sig, offset). length data + 1 - offset)"
    by simp
qed

declare scan_all.simps [simp del]

record signatures =
  local_headers :: "nat list"
  central_dir_headers :: "nat list"
  end_of_central_dir :: "nat option"

definition find_file_signatures :: "byte list \<Rightarrow> signatures" where
  "find_file_signatures data =
     \<lparr>local_headers = scan_all data LOCAL_FILE_HEADER 0,
      central_dir_headers = scan_all data CENTRAL_DIR_HEADER 0,
      end_of_central_dir = rfind_bytes data END_OF_CENTRAL_DIR\<rparr>"

section \<open>Filename extraction\<close>

text \<open>
  \<open>bytes.decode('utf-8', errors='replace')\<close> as CPython's decoder performs it, on the
  byte values. A well-formed sequence of one to four bytes yields its code point. An
  error yields one U+FFFD for the whole error range the decoder reports, and decoding
  resumes after that range: one byte for an invalid start byte, the bytes before the
  offending one for an invalid continuation byte (one to three), and everything that
  is left for a sequence cut off by the end of the data. The second byte of a
  three-byte or four-byte sequence is also checked against overlong forms, surrogates
  and values above U+10FFFF. For example \<open>b'\xe2\x82'\<close> decodes to one U+FFFD, and
  \<open>b'\xe2\x28\xa1'\<close> to U+FFFD, \<open>(\<close>, U+FFFD.
\<close>

definition is_continuation :: "nat \<Rightarrow> bool" where
  "is_continuation ch \<longleftrightarrow> 0x80 \<le> ch \<and> ch < 0xC0"

fun utf8_replace :: "nat list \<Rightarrow> pystr" where
  "utf8_replace [] = []"
| "utf8_replace (ch # s) =
     (if ch < 0x80 then ch # utf8_replace s
      else if ch < 0xC2 then 0xFFFD # utf8_replace s
      else if ch < 0xE0 then
        (case s of
           [] \<Rightarrow> [0xFFFD]
         | ch2 # s2 \<Rightarrow>
             if is_continuation ch2
             then ((ch - 0xC0) * 64 + (ch2 - 0x80)) # utf8_replace s2
             else 0xFFFD # utf8_replace s)
      else if ch < 0xF0 then
        (case s of
           [] \<Rightarrow> [0xFFFD]
         | ch2 # s2 \<Rightarrow>
             if is_continuation ch2 \<and> (if ch2 < 0xA0 then ch \<noteq> 0xE0 else ch \<noteq> 0xED)
             then
               (case s2 of
                  [] \<Rightarrow> [0xFFFD]
                | ch3 # s3 \<Rightarrow>
                    if is_continuation ch3
                    then ((ch - 0xE0) * 4096 + (ch2 - 0x80) * 64 + (ch3 - 0x80))
                           # utf8_replace s3
                    else 0xFFFD # utf8_replace s2)
             else 0xFFFD # utf8_replace s)
      else if ch < 0xF5 then
        (case s of
           [] \<Rightarrow> [0xFFFD]
         | ch2 # s2 \<Rightarrow>
             if is_continuation ch2 \<and> (if ch2 < 0x90 then ch \<noteq> 0xF0 else ch \<noteq> 0xF4)
             then
               (case s2 of
                  [] \<Rightarrow> [0xFFFD]
                | ch3 # s3 \<Rightarrow>
                    if is_continuation ch3
                    then
                      (case s3 of
                         [] \<Rightarrow> [0xFFFD]
                       | ch4 # s4 \<Rightarrow>
                           if is_continuation ch4
                           then ((ch - 0xF0) * 262144 + (ch2 - 0x80) * 4096
                                   + (ch3 - 0x80) * 64 + (ch4 - 0x80))
                                  # utf8_replace s4
                           else 0xFFFD # utf8_replace s3)
                    else 0xFFFD # utf8_replace s2)
             else 0xFFFD # utf8_replace s)
      else 0xFFFD # utf8_replace s)"

definition decode_utf8_replace :: "byte list \<Rightarrow> pystr" where
  "decode_utf8_replace bs = utf8_replace (map unat bs)"

text \<open>
  \<open>extract_filename_from_header\<close>: the bare \<open>except\<close> turns every exception of the body
  into the result \<open>None\<close>. The slice of the filename bytes and the decoding cannot raise;
  \<open>struct.unpack\<close> can.
\<close>

definition extract_filename_from_header :: "byte list \<Rightarrow> nat \<Rightarrow> pystr option" where
  "extract_filename_from_header data offset =
     (case unpack_H (slice data (offset + 26) (offset + 28)) of
        Inl e \<Rightarrow> None
      | Inr filename_length \<Rightarrow>
          Some (decode_utf8_replace
                  (slice data (offset + 30) (offset + 30 + filename_length))))"

text \<open>
  The name of entry \<open>i\<close>: \<open>if not filename: filename = f"recovered_file_{i}.bin"\<close>.
  \<open>None\<close> and the empty text are both false in Python. \<open>decimal\<close> is \<open>str(i)\<close> for a
  non-negative integer, as code points.
\<close>

fun decimal :: "nat \<Rightarrow> pystr" where
  "decimal n = (if n < 10 then [48 + n] else decimal (n div 10) @ [48 + n mod 10])"

declare decimal.simps [simp del]

definition ascii :: "string \<Rightarrow> pystr" where
  "ascii cs = map of_char cs"

definition recovered_file_name :: "nat \<Rightarrow> pystr" where
  "recovered_file_name i = ascii ''recovered_file_'' @ decimal i @ ascii ''.bin''"

definition entry_filename :: "nat \<Rightarrow> pystr option \<Rightarrow> pystr" where
  "entry_filename i extracted =
     (case extracted of
        None \<Rightarrow> recovered_file_name i
      | Some filename \<Rightarrow> if filename = [] then recovered_file_name i else filename)"

section \<open>Payload boundaries\<close>

text \<open>
  The inner loop of \<open>repair_zip\<close> that looks for the next header: the first element of
  the offset list that is greater than the current offset.
\<close>

fun next_offset :: "nat list \<Rightarrow> nat \<Rightarrow> nat option" where
  "next_offset [] offset = None"
| "next_offset (next_header # rest) offset =
     (if next_header > offset then Some next_header else next_offset rest offset)"

text \<open>
  The three places where \<open>repair_zip\<close> cuts \<open>file_data\<close> out of the buffer. Each returns
  the two bounds of the slice \<open>data[start:stop]\<close>, or the exception raised before the
  slice was taken. \<open>filename_length\<close> is a local variable of \<open>repair_zip\<close> that lives across
  loop iterations: \<open>None\<close> while it is unbound, \<open>Some n\<close> once an assignment has run. The
  branches that assign it return its new binding.

  The declared-size branch (the inner \<open>try\<close>) reads \<open>filename_length\<close> without assigning
  it: it reads whatever an earlier iteration left, and raises \<open>UnboundLocalError\<close> when
  nothing did.
\<close>

definition declared_size_bounds ::
    "byte list \<Rightarrow> nat \<Rightarrow> nat option \<Rightarrow> exn + (nat \<times> nat)" where
  "declared_size_bounds data offset filename_length =
     (case unpack_I (slice data (offset + 18) (offset + 22)) of
        Inl e \<Rightarrow> Inl e
      | Inr compressed_size \<Rightarrow>
          (case unpack_H (slice data (offset + 28) (offset + 30)) of
             Inl e \<Rightarrow> Inl e
           | Inr extra_field_length \<Rightarrow>
               (case filename_length of
                  None \<Rightarrow> Inl UnboundLocalError
                | Some fl \<Rightarrow>
                    let file_data_offset = offset + 30 + fl + extra_field_length
                    in Inr (file_data_offset, file_data_offset + compressed_size))))"

text \<open>The handler of the inner \<open>try\<close>: at most 1 MiB after the header.\<close>

definition one_mib_bounds ::
    "byte list \<Rightarrow> nat \<Rightarrow> nat option \<Rightarrow> nat option \<times> (exn + (nat \<times> nat))" where
  "one_mib_bounds data offset filename_length =
     (case unpack_H (slice data (offset + 26) (offset + 28)) of
        Inl e \<Rightarrow> (filename_length, Inl e)
      | Inr fl \<Rightarrow>
          (case unpack_H (slice data (offset + 28) (offset + 30)) of
             Inl e \<Rightarrow> (Some fl, Inl e)
           | Inr extra_field_length \<Rightarrow>
               let file_data_offset = offset + 30 + fl + extra_field_length
               in (Some fl, Inr (file_data_offset, file_data_offset + 1024 * 1024))))"

text \<open>The \<open>else\<close> branch: the bytes between this header and the next one.\<close>

definition up_to_next_bounds ::
    "byte list \<Rightarrow> nat \<Rightarrow> nat \<Rightarrow> nat option \<Rightarrow> nat option \<times> (exn + (nat \<times> nat))" where
  "up_to_next_bounds data offset nxt filename_length =
     (case unpack_H (slice data (offset + 26) (offset + 28)) of
        Inl e \<Rightarrow> (filename_length, Inl e)
      | Inr fl \<Rightarrow>
          (case unpack_H (slice data (offset + 28) (offset + 30)) of
             Inl e \<Rightarrow> (Some fl, Inl e)
           | Inr extra_field_length \<Rightarrow>
               let file_data_offset = offset + 30 + fl + extra_field_length
               in (Some fl, Inr (file_data_offset, nxt))))"

text \<open>
  The \<open>if next_offset is None\<close> statement as a whole: the binding of \<open>filename_length\<close>
  it leaves, and the bounds of \<open>file_data\<close> or the exception that reaches the outer
  handler. The inner bare \<open>except\<close> catches every exception of the declared-size branch.
\<close>

definition file_data_bounds ::
    "byte list \<Rightarrow> nat list \<Rightarrow> nat \<Rightarrow> nat option \<Rightarrow> nat option \<times> (exn + (nat \<times> nat))" where
  "file_data_bounds data headers offset filename_length =
     (case next_offset headers offset of
        None \<Rightarrow>
          (case declared_size_bounds data offset filename_length of
             Inr bounds \<Rightarrow> (filename_length, Inr bounds)
           | Inl e \<Rightarrow> one_mib_bounds data offset filename_length)
      | Some nxt \<Rightarrow> up_to_next_bounds data offset nxt filename_length)"

section \<open>The repair pass\<close>

text \<open>
  The output container is the collaborator's object: its state is a type parameter, and
  \<open>new_zip.writestr(filename, file_data)\<close> is a parameter of the model that either
  returns (\<open>Stored\<close>) or raises (\<open>WriteRaised\<close>), leaving a container state either way.
  The messages are the \<open>print\<close> calls of \<open>repair_zip\<close>.
\<close>

datatype 'z write_result = Stored 'z | WriteRaised 'z

type_synonym 'z writer = "'z \<Rightarrow> pystr \<Rightarrow> byte list \<Rightarrow> 'z write_result"

datatype message =
    NoHeadersFound
  | FoundEntries nat
  | RecoveredFile pystr
  | ErrorProcessing nat exn
  | RepairCompleted

text \<open>
  What one loop iteration hands to the next: the binding of the local variable
  \<open>filename_length\<close>, the container and what was printed. Every other local variable is
  assigned in an iteration before it is read there.
\<close>

record 'z loop_state =
  filename_length :: "nat option"
  new_zip :: 'z
  printed :: "message list"

text \<open>
  The body of the \<open>for i, offset in enumerate(...)\<close> loop. An exception of the body
  reaches \<open>except Exception\<close>, which prints the offset and lets the loop go on; an
  assignment to \<open>filename_length\<close> made before the exception stays. The exceptions of
  the body are \<open>struct.error\<close>, \<open>UnboundLocalError\<close> and those of the writer, taken to be
  instances of \<open>Exception\<close>. The two bounds and the slice \<open>data[start:stop]\<close> are one
  expression in the source; here the bounds come first and the slice is cut from them.
\<close>

definition process_entry ::
    "'z writer \<Rightarrow> byte list \<Rightarrow> nat list \<Rightarrow> nat \<times> nat \<Rightarrow> 'z loop_state \<Rightarrow> 'z loop_state" where
  "process_entry writestr data headers entry st =
     (case entry of
        (i, offset) \<Rightarrow>
          let filename = entry_filename i (extract_filename_from_header data offset) in
          (case file_data_bounds data headers offset (filename_length st) of
             (fl, Inl e) \<Rightarrow>
               st\<lparr>filename_length := fl,
                    printed := printed st @ [ErrorProcessing offset e]\<rparr>
           | (fl, Inr (start, stop)) \<Rightarrow>
               (case writestr (new_zip st) filename (slice data start stop) of
                  Stored z \<Rightarrow>
                    st\<lparr>filename_length := fl, new_zip := z,
                         printed := printed st @ [RecoveredFile filename]\<rparr>
                | WriteRaised z \<Rightarrow>
                    st\<lparr>filename_length := fl, new_zip := z,
                         printed := printed st @ [ErrorProcessing offset WriteError]\<rparr>)))"

record 'z repair_result =
  success :: bool
  output_zip :: "'z option"
  messages :: "message list"

text \<open>
  \<open>repair_zip\<close> on the bytes of the input file (the source reads the file once itself and
  once more inside \<open>find_file_signatures\<close>; both reads are the same buffer here).
  \<open>empty_zip\<close> is the container that \<open>zipfile.ZipFile(output_path, 'w')\<close> creates; the
  result holds no container when the function returns before creating it. Opening the
  input, creating the container and closing it when the \<open>with\<close> block ends are taken to
  succeed.
\<close>

definition repair_zip :: "'z writer \<Rightarrow> 'z \<Rightarrow> byte list \<Rightarrow> 'z repair_result" where
  "repair_zip writestr empty_zip data =
     (let headers = local_headers (find_file_signatures data) in
      if headers = []
      then \<lparr>success = False, output_zip = None, messages = [NoHeadersFound]\<rparr>
      else
        let st = fold (process_entry writestr data headers) (enumerate 0 headers)
                   \<lparr>filename_length = None, new_zip = empty_zip,
                    printed = [FoundEntries (length headers)]\<rparr>
        in \<lparr>success = True, output_zip = Some (new_zip st),
            messages = printed st @ [RepairCompleted]\<rparr>)"

text \<open>
  A container that is the list of the entries written to it, with a writer that never
  raises: the run with it yields the recovered (filename, payload) pairs.
\<close>

definition list_writer :: "(pystr \<times> byte list) list writer" where
  "list_writer z filename file_data = Stored (z @ [(filename, file_data)])"

definition recovered_entries :: "byte list \<Rightarrow> (pystr \<times> byte list) list" where
  "recovered_entries data =
     (case output_zip (repair_zip list_writer [] data) of
        None \<Rightarrow> []
      | Some entries \<Rightarrow> entries)"

text \<open>Offering a sequence of entries to a writer, whether or not a call raises.\<close>

fun state_after :: "'z write_result \<Rightarrow> 'z" where
  "state_after (Stored z) = z"
| "state_after (WriteRaised z) = z"

fun replay :: "'z writer \<Rightarrow> 'z \<Rightarrow> (pystr \<times> byte list) list \<Rightarrow> 'z" where
  "replay writestr z [] = z"
| "replay writestr z ((filename, file_data) # rest) =
     replay writestr (state_after (writestr z filename file_data)) rest"

text \<open>A writer that raises on every call.\<close>

definition failing_writer :: "unit writer" where
  "failing_writer z filename file_data = WriteRaised z"

text \<open>
  A writer that raises for one filename and stores every other entry.
\<close>

definition refusing_writer :: "pystr \<Rightarrow> (pystr \<times> byte list) list writer" where
  "refusing_writer refused z filename file_data =
     (if filename = refused then WriteRaised z else Stored (z @ [(filename, file_data)]))"

text \<open>
  The loop state of a run when iteration \<open>k\<close> starts: the first \<open>k\<close> entries processed.
\<close>

definition state_before :: "'z writer \<Rightarrow> 'z \<Rightarrow> byte list \<Rightarrow> nat \<Rightarrow> 'z loop_state" where
  "state_before writestr empty_zip data k =
     (let headers = local_headers (find_file_signatures data) in
      fold (process_entry writestr data headers) (take k (enumerate 0 headers))
        \<lparr>filename_length = None, new_zip = empty_zip,
         printed = [FoundEntries (length headers)]\<rparr>)"

section \<open>Well-formed UTF-8 and the replacement of errors\<close>

text \<open>
  The byte sequences that encode one code point, after the table of well-formed UTF-8
  byte sequences of the Unicode standard: the number of bytes a lead byte announces
  (0 for a byte that cannot start a sequence), the range allowed for the second byte
  (narrower after \<open>E0\<close>, \<open>ED\<close>, \<open>F0\<close> and \<open>F4\<close>), and continuation bytes after that.
  \<open>valid_prefix xs\<close> says that the non-empty \<open>xs\<close> is a well-formed sequence or the
  beginning of one.
\<close>

definition seq_length :: "nat \<Rightarrow> nat" where
  "seq_length lead =
     (if lead < 0x80 then 1
      else if 0xC2 \<le> lead \<and> lead < 0xE0 then 2
      else if 0xE0 \<le> lead \<and> lead < 0xF0 then 3
      else if 0xF0 \<le> lead \<and> lead < 0xF5 then 4
      else 0)"

definition second_ok :: "nat \<Rightarrow> nat \<Rightarrow> bool" where
  "second_ok lead b \<longleftrightarrow>
     (if lead = 0xE0 then 0xA0 \<le> b \<and> b < 0xC0
      else if lead = 0xED then 0x80 \<le> b \<and> b < 0xA0
      else if lead = 0xF0 then 0x90 \<le> b \<and> b < 0xC0
      else if lead = 0xF4 then 0x80 \<le> b \<and> b < 0x90
      else 0x80 \<le> b \<and> b < 0xC0)"

definition valid_prefix :: "nat list \<Rightarrow> bool" where
  "valid_prefix xs =
     (case xs of
        [] \<Rightarrow> False
      | lead # rest \<Rightarrow>
          length rest < seq_length lead
          \<and> (case rest of
               [] \<Rightarrow> True
             | b # others \<Rightarrow> second_ok lead b \<and> list_all is_continuation others))"

text \<open>
  The length of the well-formed sequence that starts the input (0 when none does), the
  code point it encodes, and the error range when none does: the longest beginning of
  a well-formed sequence the input starts with, and one byte when even the first byte
  begins none. The standard calls that range a maximal subpart of an ill-formed
  subsequence.
\<close>

definition sequence_at :: "nat list \<Rightarrow> nat" where
  "sequence_at xs =
     (case xs of
        [] \<Rightarrow> 0
      | lead # rest \<Rightarrow>
          if seq_length lead \<le> length xs \<and> valid_prefix (take (seq_length lead) xs)
          then seq_length lead else 0)"

definition scalar_value :: "nat list \<Rightarrow> nat" where
  "scalar_value xs =
     (case xs of
        [a] \<Rightarrow> a
      | [a, b] \<Rightarrow> (a - 0xC0) * 64 + (b - 0x80)
      | [a, b, c] \<Rightarrow> (a - 0xE0) * 4096 + (b - 0x80) * 64 + (c - 0x80)
      | [a, b, c, d] \<Rightarrow>
          (a - 0xF0) * 262144 + (b - 0x80) * 4096 + (c - 0x80) * 64 + (d - 0x80)
      | _ \<Rightarrow> 0xFFFD)"

definition error_range :: "nat list \<Rightarrow> nat" where
  "error_range xs =
     (if 3 \<le> length xs \<and> valid_prefix (take 3 xs) then 3
      else if 2 \<le> length xs \<and> valid_prefix (take 2 xs) then 2
      else 1)"

section \<open>The replacement policy in the specification's words\<close>

text \<open>
  The specification describes the repair of a decoding error as "substituting a
  placeholder character per invalid byte". Read literally: where a well-formed UTF-8
  sequence starts, it is decoded; any other byte is replaced by one U+FFFD on its own
  and decoding resumes at the byte after it.
\<close>

fun replace_per_invalid_byte :: "nat list \<Rightarrow> pystr" where
  "replace_per_invalid_byte [] = []"
| "replace_per_invalid_byte (ch # s) =
     (if ch < 0x80 then ch # replace_per_invalid_byte s
      else if 0xC2 \<le> ch \<and> ch < 0xE0 then
        (case s of
           ch2 # s2 \<Rightarrow>
             if is_continuation ch2
             then ((ch - 0xC0) * 64 + (ch2 - 0x80)) # replace_per_invalid_byte s2
             else 0xFFFD # replace_per_invalid_byte s
         | _ \<Rightarrow> 0xFFFD # replace_per_invalid_byte s)
      else if 0xE0 \<le> ch \<and> ch < 0xF0 then
        (case s of
           ch2 # ch3 # s3 \<Rightarrow>
             if is_continuation ch2 \<and> (if ch2 < 0xA0 then ch \<noteq> 0xE0 else ch \<noteq> 0xED)
                \<and> is_continuation ch3
             then ((ch - 0xE0) * 4096 + (ch2 - 0x80) * 64 + (ch3 - 0x80))
                    # replace_per_invalid_byte s3
             else 0xFFFD # replace_per_invalid_byte s
         | _ \<Rightarrow> 0xFFFD # replace_per_invalid_byte s)
      else if 0xF0 \<le> ch \<and> ch < 0xF5 then
        (case s of
           ch2 # ch3 # ch4 # s4 \<Rightarrow>
             if is_continuation ch2 \<and> (if ch2 < 0x90 then ch \<noteq> 0xF0 else ch \<noteq> 0xF4)
                \<and> is_continuation ch3 \<and> is_continuation ch4
             then ((ch - 0xF0) * 262144 + (ch2 - 0x80) * 4096
                     + (ch3 - 0x80) * 64 + (ch4 - 0x80))
                    # replace_per_invalid_byte s4
             else 0xFFFD # replace_per_invalid_byte s
         | _ \<Rightarrow> 0xFFFD # replace_per_invalid_byte s)
      else 0xFFFD # replace_per_invalid_byte s)"

section \<open>Example buffers\<close>

text \<open>
  One local header (filename \<open>a.txt\<close>, declared compressed size 5), the five payload bytes
  \<open>hello\<close> and one more byte \<open>!\<close> after them.
\<close>

definition single_entry_buf :: "byte list" where
  "single_entry_buf =
    [0x50, 0x4B, 0x03, 0x04, 0x14, 0x00, 0x00, 0x00, 0x00, 0x00, 0x00, 0x00,
     0x00, 0x00, 0x00, 0x00, 0x00, 0x00, 0x05, 0x00, 0x00, 0x00, 0x05, 0x00,
     0x00, 0x00, 0x05, 0x00, 0x00, 0x00, 0x61, 0x2E, 0x74, 0x78, 0x74, 0x68,
     0x65, 0x6C, 0x6C, 0x6F, 0x21]"

text \<open>
  Two entries: header at 0 (filename \<open>x\<close>), payload \<open>AB\<close>; header at 33 (filename \<open>yz\<close>,
  declared compressed size 1), payload \<open>C\<close>.
\<close>

definition two_entries_buf :: "byte list" where
  "two_entries_buf =
    [0x50, 0x4B, 0x03, 0x04, 0x14, 0x00, 0x00, 0x00, 0x00, 0x00, 0x00, 0x00,
     0x00, 0x00, 0x00, 0x00, 0x00, 0x00, 0x02, 0x00, 0x00, 0x00, 0x02, 0x00,
     0x00, 0x00, 0x01, 0x00, 0x00, 0x00, 0x78, 0x41, 0x42, 0x50, 0x4B, 0x03,
     0x04, 0x14, 0x00, 0x00, 0x00, 0x00, 0x00, 0x00, 0x00, 0x00, 0x00, 0x00,
     0x00, 0x00, 0x00, 0x01, 0x00, 0x00, 0x00, 0x01, 0x00, 0x00, 0x00, 0x02,
     0x00, 0x00, 0x00, 0x79, 0x7A, 0x43]"

text \<open>
  Two adjacent headers: the header of \<open>a\<close> (31 bytes with its filename) is followed at
  once by the signature of the header of \<open>b\<close>.
\<close>

definition adjacent_buf :: "byte list" where
  "adjacent_buf =
    [0x50, 0x4B, 0x03, 0x04, 0x14, 0x00, 0x00, 0x00, 0x00, 0x00, 0x00, 0x00,
     0x00, 0x00, 0x00, 0x00, 0x00, 0x00, 0x00, 0x00, 0x00, 0x00, 0x00, 0x00,
     0x00, 0x00, 0x01, 0x00, 0x00, 0x00, 0x61, 0x50, 0x4B, 0x03, 0x04, 0x14,
     0x00, 0x00, 0x00, 0x00, 0x00, 0x00, 0x00, 0x00, 0x00, 0x00, 0x00, 0x00,
     0x00, 0x00, 0x00, 0x00, 0x00, 0x00, 0x00, 0x00, 0x00, 0x01, 0x00, 0x00,
     0x00, 0x62]"

text \<open>
  One header whose two filename bytes \<open>E2 82\<close> are the start of a three-byte sequence cut
  off by the end of the filename.
\<close>

definition truncated_name_buf :: "byte list" where
  "truncated_name_buf =
    [0x50, 0x4B, 0x03, 0x04, 0x14, 0x00, 0x00, 0x00, 0x00, 0x00, 0x00, 0x00,
     0x00, 0x00, 0x00, 0x00, 0x00, 0x00, 0x00, 0x00, 0x00, 0x00, 0x00, 0x00,
     0x00, 0x00, 0x02, 0x00, 0x00, 0x00, 0xE2, 0x82]"

text \<open>
  The header of \<open>single_entry_buf\<close> cut off after its filename-length field: 28 bytes, so
  the extra-field length at 28 is missing.
\<close>

definition cut_header_buf :: "byte list" where
  "cut_header_buf = take 28 single_entry_buf"

text \<open>
  A complete small archive: one stored entry \<open>a\<close> with the payload \<open>Z\<close> (local header
  at 0), its central directory header at 32 and the end-of-central-directory record
  at 79.
\<close>

definition archive_buf :: "byte list" where
  "archive_buf =
    [0x50, 0x4B, 0x03, 0x04, 0x14, 0x00, 0x00, 0x00, 0x00, 0x00, 0x00, 0x00,
     0x00, 0x00, 0x00, 0x00, 0x00, 0x00, 0x01, 0x00, 0x00, 0x00, 0x01, 0x00,
     0x00, 0x00, 0x01, 0x00, 0x00, 0x00, 0x61, 0x5A, 0x50, 0x4B, 0x01, 0x02,
     0x14, 0x00, 0x14, 0x00, 0x00, 0x00, 0x00, 0x00, 0x00, 0x00, 0x00, 0x00,
     0x00, 0x00, 0x00, 0x00, 0x01, 0x00, 0x00, 0x00, 0x01, 0x00, 0x00, 0x00,
     0x01, 0x00, 0x00, 0x00, 0x00, 0x00, 0x00, 0x00, 0x00, 0x00, 0x00, 0x00,
     0x00, 0x00, 0x00, 0x00, 0x00, 0x00, 0x61, 0x50, 0x4B, 0x05, 0x06, 0x00,
     0x00, 0x00, 0x00, 0x01, 0x00, 0x01, 0x00, 0x2F, 0x00, 0x00, 0x00, 0x20,
     0x00, 0x00, 0x00, 0x00, 0x00]"

section \<open>Facts about slices and the scanner\<close>

lemma length_slice: "length (slice xs a b) = min (b - a) (length xs - a)"
  by (simp add: slice_def)

lemma find_bytes_Some:
  "find_bytes data sub s = Some p \<Longrightarrow>
     s \<le> p \<and> occurs_at data sub p \<and> (\<forall>q. s \<le> q \<and> q < p \<longrightarrow> \<not> occurs_at data sub q)"
proof (induction data sub s rule: find_bytes.induct)
  case (1 data sub start)
  show ?case
  proof (cases "slice data start (start + length sub) = sub")
    case True
    with "1.prems" show ?thesis
      by (auto simp: find_bytes.simps [of data sub start] occurs_at_def split: if_splits)
  next
    case False
    with "1.prems" have fits: "\<not> length data < start + length sub"
      and rec: "find_bytes data sub (start + 1) = Some p"
      by (simp_all add: find_bytes.simps [of data sub start] split: if_splits)
    from "1.IH" [OF fits False rec]
    have ih: "start + 1 \<le> p" "occurs_at data sub p"
      "\<forall>q. start + 1 \<le> q \<and> q < p \<longrightarrow> \<not> occurs_at data sub q"
      by blast+
    have "\<not> occurs_at data sub q" if "start \<le> q" "q < p" for q
    proof (cases "q = start")
      case True
      with False show ?thesis by (simp add: occurs_at_def)
    next
      case False
      with that ih(3) show ?thesis by simp
    qed
    with ih show ?thesis by simp
  qed
qed

lemma find_bytes_None:
  "find_bytes data sub s = None \<Longrightarrow> s \<le> q \<Longrightarrow> \<not> occurs_at data sub q"
proof (induction data sub s rule: find_bytes.induct)
  case (1 data sub start)
  show ?case
  proof (cases "length data < start + length sub")
    case True
    with "1.prems" show ?thesis by (simp add: occurs_at_def)
  next
    case False
    with "1.prems" have differs: "slice data start (start + length sub) \<noteq> sub"
      and rec: "find_bytes data sub (start + 1) = None"
      by (simp_all add: find_bytes.simps [of data sub start] split: if_splits)
    show ?thesis
    proof (cases "q = start")
      case True
      with differs show ?thesis by (simp add: occurs_at_def)
    next
      case neq: False
      with "1.prems" have "start + 1 \<le> q" by simp
      from "1.IH" [OF False differs rec this] show ?thesis .
    qed
  qed
qed

lemma scan_all_correct:
  "\<forall>p q. occurs_at data sig p \<and> p < q \<and> q < p + 4 \<longrightarrow> \<not> occurs_at data sig q \<Longrightarrow>
   set (scan_all data sig s) = {p. s \<le> p \<and> occurs_at data sig p}
     \<and> sorted_wrt (<) (scan_all data sig s)"
proof (induction data sig s rule: scan_all.induct)
  case (1 data sig offset)
  show ?case
  proof (cases "find_bytes data sig offset")
    case None
    then have "scan_all data sig offset = []"
      by (simp add: scan_all.simps [of data sig offset])
    moreover from None have "{p. offset \<le> p \<and> occurs_at data sig p} = {}"
      by (auto dest: find_bytes_None)
    ultimately show ?thesis by simp
  next
    case (Some p)
    then have unfold: "scan_all data sig offset = p # scan_all data sig (p + 4)"
      by (simp add: scan_all.simps [of data sig offset])
    from find_bytes_Some [OF Some]
    have p: "offset \<le> p" "occurs_at data sig p"
      and before: "\<And>q. offset \<le> q \<Longrightarrow> q < p \<Longrightarrow> \<not> occurs_at data sig q"
      by blast+
    from "1.IH" [OF Some "1.prems"]
    have ih: "set (scan_all data sig (p + 4)) = {q. p + 4 \<le> q \<and> occurs_at data sig q}"
      "sorted_wrt (<) (scan_all data sig (p + 4))"
      by blast+
    have "{q. offset \<le> q \<and> occurs_at data sig q}
        = insert p {q. p + 4 \<le> q \<and> occurs_at data sig q}" (is "?L = ?R")
    proof (rule set_eqI)
      fix q
      show "q \<in> ?L \<longleftrightarrow> q \<in> ?R"
      proof
        assume "q \<in> ?L"
        then have q: "offset \<le> q" "occurs_at data sig q" by simp_all
        with before have "\<not> q < p" by blast
        moreover from "1.prems" p(2) q(2) have "\<not> (p < q \<and> q < p + 4)" by blast
        ultimately have "q = p \<or> p + 4 \<le> q" by arith
        with q show "q \<in> ?R" by auto
      next
        assume "q \<in> ?R"
        with p show "q \<in> ?L" by auto
      qed
    qed
    with ih unfold show ?thesis by auto
  qed
qed

lemma occurs_at_4:
  "occurs_at data [a, b, c, d] p \<longleftrightarrow> (\<exists>rest. drop p data = a # b # c # d # rest)"
proof
  assume "occurs_at data [a, b, c, d] p"
  then have "take 4 (drop p data) = [a, b, c, d]"
    by (simp add: occurs_at_def slice_def)
  then have "drop p data = [a, b, c, d] @ drop 4 (drop p data)"
    by (metis append_take_drop_id)
  then show "\<exists>rest. drop p data = a # b # c # d # rest"
    by simp
next
  assume "\<exists>rest. drop p data = a # b # c # d # rest"
  then obtain rest where d: "drop p data = a # b # c # d # rest" ..
  then have "length (drop p data) = 4 + length rest" by simp
  then have "p + 4 \<le> length data" by simp
  with d show "occurs_at data [a, b, c, d] p"
    by (simp add: occurs_at_def slice_def)
qed

lemma signature_apart:
  assumes "a \<noteq> b" "a \<noteq> c" "a \<noteq> d"
    and "occurs_at data [a, b, c, d] p" "p < q" "q < p + 4"
  shows "\<not> occurs_at data [a, b, c, d] q"
proof
  assume "occurs_at data [a, b, c, d] q"
  then obtain r2 where q: "drop q data = a # b # c # d # r2"
    by (auto simp: occurs_at_4)
  from assms(4) obtain r1 where p: "drop p data = a # b # c # d # r1"
    by (auto simp: occurs_at_4)
  from assms(5,6) consider "q = p + 1" | "q = p + 2" | "q = p + 3" by arith
  then show False
  proof cases
    case 1
    have "drop q data = drop 1 (drop p data)" by (simp add: 1 add.commute)
    with p q assms(1) show False by simp
  next
    case 2
    have "drop q data = drop 2 (drop p data)" by (simp add: 2 add.commute)
    with p q assms(2) show False by simp
  next
    case 3
    have "drop q data = drop 3 (drop p data)" by (simp add: 3 add.commute)
    with p q assms(3) show False by simp
  qed
qed

lemma local_header_apart:
  "\<forall>p q. occurs_at data LOCAL_FILE_HEADER p \<and> p < q \<and> q < p + 4
     \<longrightarrow> \<not> occurs_at data LOCAL_FILE_HEADER q"
  unfolding LOCAL_FILE_HEADER_def
  by (intro allI impI, elim conjE, rule signature_apart) simp_all

lemma central_header_apart:
  "\<forall>p q. occurs_at data CENTRAL_DIR_HEADER p \<and> p < q \<and> q < p + 4
     \<longrightarrow> \<not> occurs_at data CENTRAL_DIR_HEADER q"
  unfolding CENTRAL_DIR_HEADER_def
  by (intro allI impI, elim conjE, rule signature_apart) simp_all

lemma local_headers_set:
  "set (local_headers (find_file_signatures data)) = {p. occurs_at data LOCAL_FILE_HEADER p}"
  using scan_all_correct [OF local_header_apart, of data 0]
  by (simp add: find_file_signatures_def)

lemma local_headers_sorted:
  "sorted_wrt (<) (local_headers (find_file_signatures data))"
  using scan_all_correct [OF local_header_apart, of data 0]
  by (simp add: find_file_signatures_def)

lemma central_headers_set:
  "set (central_dir_headers (find_file_signatures data)) = {p. occurs_at data CENTRAL_DIR_HEADER p}"
  using scan_all_correct [OF central_header_apart, of data 0]
  by (simp add: find_file_signatures_def)

lemma central_headers_sorted:
  "sorted_wrt (<) (central_dir_headers (find_file_signatures data))"
  using scan_all_correct [OF central_header_apart, of data 0]
  by (simp add: find_file_signatures_def)

lemma rfind_from_Some:
  "rfind_from data sub n = Some p \<Longrightarrow>
     p \<le> n \<and> slice data p (p + length sub) = sub
       \<and> (\<forall>q. p < q \<and> q \<le> n \<longrightarrow> slice data q (q + length sub) \<noteq> sub)"
proof (induction n)
  case 0
  then show ?case by (simp split: if_splits)
next
  case (Suc n)
  show ?case
  proof (cases "slice data (Suc n) (Suc n + length sub) = sub")
    case True
    with Suc.prems show ?thesis by auto
  next
    case False
    with Suc.prems have "rfind_from data sub n = Some p" by simp
    from Suc.IH [OF this] False show ?thesis
      by (auto simp: le_Suc_eq)
  qed
qed

lemma rfind_from_None:
  "rfind_from data sub n = None \<Longrightarrow> q \<le> n \<Longrightarrow> slice data q (q + length sub) \<noteq> sub"
proof (induction n)
  case 0
  then show ?case by (simp split: if_splits)
next
  case (Suc n)
  then show ?case
    by (cases "q = Suc n") (auto split: if_splits)
qed

lemma rfind_bytes_Some:
  "rfind_bytes data sub = Some p \<Longrightarrow>
     occurs_at data sub p \<and> (\<forall>q. occurs_at data sub q \<longrightarrow> q \<le> p)"
proof -
  assume r: "rfind_bytes data sub = Some p"
  then have fits: "length sub \<le> length data"
    and rf: "rfind_from data sub (length data - length sub) = Some p"
    by (simp_all add: rfind_bytes_def split: if_splits)
  from rfind_from_Some [OF rf]
  have p: "p \<le> length data - length sub" "slice data p (p + length sub) = sub"
    and above: "\<And>q. p < q \<Longrightarrow> q \<le> length data - length sub
                  \<Longrightarrow> slice data q (q + length sub) \<noteq> sub"
    by blast+
  from p fits have "occurs_at data sub p"
    by (simp add: occurs_at_def)
  moreover have "q \<le> p" if "occurs_at data sub q" for q
  proof (rule ccontr)
    assume "\<not> q \<le> p"
    moreover from that have "q \<le> length data - length sub"
      and "slice data q (q + length sub) = sub"
      by (auto simp: occurs_at_def)
    ultimately show False using above [of q] by simp
  qed
  ultimately show ?thesis by blast
qed

lemma rfind_bytes_None:
  "rfind_bytes data sub = None \<Longrightarrow> \<not> occurs_at data sub q"
proof
  assume r: "rfind_bytes data sub = None" and occ: "occurs_at data sub q"
  from occ have fits: "length sub \<le> length data" and q: "q \<le> length data - length sub"
    and m: "slice data q (q + length sub) = sub"
    by (auto simp: occurs_at_def)
  from r fits have "rfind_from data sub (length data - length sub) = None"
    by (simp add: rfind_bytes_def)
  from rfind_from_None [OF this q] m show False by simp
qed

lemma rfind_bytes_Max:
  "rfind_bytes data sub =
     (if \<exists>p. occurs_at data sub p then Some (Max {p. occurs_at data sub p}) else None)"
proof (cases "rfind_bytes data sub")
  case None
  then show ?thesis by (auto dest: rfind_bytes_None)
next
  case (Some p)
  from rfind_bytes_Some [OF Some]
  have p: "occurs_at data sub p" and top: "\<And>q. occurs_at data sub q \<Longrightarrow> q \<le> p"
    by blast+
  have "finite {q. occurs_at data sub q}"
    by (rule finite_subset [of _ "{..length data}"]) (auto simp: occurs_at_def)
  then have "Max {q. occurs_at data sub q} = p"
    using p top by (intro Max_eqI) auto
  with Some p show ?thesis by auto
qed

section \<open>Facts about header fields, decoding and names\<close>

lemma unpack_H_Inr_iff: "(\<exists>n. unpack_H bs = Inr n) \<longleftrightarrow> length bs = 2"
  by (auto simp: unpack_H_def split: list.splits)

lemma unpack_H_Inl_iff: "unpack_H bs = Inl e \<longleftrightarrow> length bs \<noteq> 2 \<and> e = StructError"
  by (auto simp: unpack_H_def split: list.splits)

lemma unpack_I_Inr_iff: "(\<exists>n. unpack_I bs = Inr n) \<longleftrightarrow> length bs = 4"
  by (auto simp: unpack_I_def split: list.splits)

lemma unpack_I_Inl_iff: "unpack_I bs = Inl e \<longleftrightarrow> length bs \<noteq> 4 \<and> e = StructError"
  by (auto simp: unpack_I_def split: list.splits)

lemma filename_length_field:
  "(\<exists>n. unpack_H (slice data (offset + 26) (offset + 28)) = Inr n) \<longleftrightarrow> offset + 28 \<le> length data"
  unfolding unpack_H_Inr_iff length_slice by auto

lemma extra_length_field:
  "(\<exists>n. unpack_H (slice data (offset + 28) (offset + 30)) = Inr n) \<longleftrightarrow> offset + 30 \<le> length data"
  unfolding unpack_H_Inr_iff length_slice by auto

lemma compressed_size_field:
  "(\<exists>n. unpack_I (slice data (offset + 18) (offset + 22)) = Inr n) \<longleftrightarrow> offset + 22 \<le> length data"
  unfolding unpack_I_Inr_iff length_slice by auto

lemma extract_filename_None:
  "extract_filename_from_header data offset = None \<longleftrightarrow> length data < offset + 28"
proof (cases "unpack_H (slice data (offset + 26) (offset + 28))")
  case (Inl e)
  then have "\<not> offset + 28 \<le> length data"
    using filename_length_field [of data offset] by auto
  with Inl show ?thesis
    by (simp add: extract_filename_from_header_def)
next
  case (Inr n)
  then have "offset + 28 \<le> length data"
    using filename_length_field [of data offset] by auto
  with Inr show ?thesis
    by (simp add: extract_filename_from_header_def)
qed

lemma extract_filename_Some:
  "extract_filename_from_header data offset = Some t \<longleftrightarrow>
     (\<exists>n. unpack_H (slice data (offset + 26) (offset + 28)) = Inr n
        \<and> t = decode_utf8_replace (slice data (offset + 30) (offset + 30 + n)))"
  by (auto simp: extract_filename_from_header_def split: sum.splits)

lemma lead_byte_cases:
  fixes ch :: nat
  obtains (ascii) "ch < 0x80"
    | (stray) "0x80 \<le> ch" "ch < 0xC2"
    | (two) "0xC2 \<le> ch" "ch < 0xE0"
    | (three) "0xE0 \<le> ch" "ch < 0xF0"
    | (four) "0xF0 \<le> ch" "ch < 0xF5"
    | (high) "0xF5 \<le> ch"
  by linarith

lemma utf8_replace_single:
  "ch < 0x80 \<Longrightarrow> utf8_replace (ch # s) = ch # utf8_replace s"
  by simp

lemma utf8_replace_stray:
  "(0x80 \<le> ch \<and> ch < 0xC2) \<or> 0xF5 \<le> ch \<Longrightarrow> utf8_replace (ch # s) = 0xFFFD # utf8_replace s"
  by auto

lemma utf8_replace_two:
  "0xC2 \<le> ch \<Longrightarrow> ch < 0xE0 \<Longrightarrow>
   utf8_replace (ch # s) =
     (case s of
        [] \<Rightarrow> [0xFFFD]
      | ch2 # s2 \<Rightarrow>
          if is_continuation ch2
          then ((ch - 0xC0) * 64 + (ch2 - 0x80)) # utf8_replace s2
          else 0xFFFD # utf8_replace s)"
  by simp

lemma utf8_replace_three:
  "0xE0 \<le> ch \<Longrightarrow> ch < 0xF0 \<Longrightarrow>
   utf8_replace (ch # s) =
     (case s of
        [] \<Rightarrow> [0xFFFD]
      | ch2 # s2 \<Rightarrow>
          if is_continuation ch2 \<and> (if ch2 < 0xA0 then ch \<noteq> 0xE0 else ch \<noteq> 0xED)
          then
            (case s2 of
               [] \<Rightarrow> [0xFFFD]
             | ch3 # s3 \<Rightarrow>
                 if is_continuation ch3
                 then ((ch - 0xE0) * 4096 + (ch2 - 0x80) * 64 + (ch3 - 0x80)) # utf8_replace s3
                 else 0xFFFD # utf8_replace s2)
          else 0xFFFD # utf8_replace s)"
  by simp

lemma utf8_replace_four:
  "0xF0 \<le> ch \<Longrightarrow> ch < 0xF5 \<Longrightarrow>
   utf8_replace (ch # s) =
     (case s of
        [] \<Rightarrow> [0xFFFD]
      | ch2 # s2 \<Rightarrow>
          if is_continuation ch2 \<and> (if ch2 < 0x90 then ch \<noteq> 0xF0 else ch \<noteq> 0xF4)
          then
            (case s2 of
               [] \<Rightarrow> [0xFFFD]
             | ch3 # s3 \<Rightarrow>
                 if is_continuation ch3
                 then
                   (case s3 of
                      [] \<Rightarrow> [0xFFFD]
                    | ch4 # s4 \<Rightarrow>
                        if is_continuation ch4
                        then ((ch - 0xF0) * 262144 + (ch2 - 0x80) * 4096
                                + (ch3 - 0x80) * 64 + (ch4 - 0x80)) # utf8_replace s4
                        else 0xFFFD # utf8_replace s3)
                 else 0xFFFD # utf8_replace s2)
          else 0xFFFD # utf8_replace s)"
  by simp

lemma utf8_replace_Cons:
  "\<exists>cp k. k \<le> 3 \<and> k \<le> length s \<and> utf8_replace (ch # s) = cp # utf8_replace (drop k s)"
proof -
  have step: "k \<le> 3 \<Longrightarrow> k \<le> length s \<Longrightarrow> utf8_replace (ch # s) = cp # utf8_replace (drop k s)
      \<Longrightarrow> ?thesis" for k cp
    by blast
  show ?thesis
  proof (cases ch rule: lead_byte_cases)
    case ascii
    then show ?thesis by (intro step [of 0 ch]) (simp_all del: utf8_replace.simps add: utf8_replace_single)
  next
    case stray
    then show ?thesis by (intro step [of 0 "0xFFFD"]) (simp_all del: utf8_replace.simps add: utf8_replace_stray)
  next
    case high
    then show ?thesis by (intro step [of 0 "0xFFFD"]) (simp_all del: utf8_replace.simps add: utf8_replace_stray)
  next
    case two
    note u = utf8_replace_two [OF two, of s]
    show ?thesis
    proof (cases s)
      case Nil
      with u show ?thesis by (intro step [of 0 "0xFFFD"]) (simp_all del: utf8_replace.simps(2))
    next
      case (Cons ch2 s2)
      show ?thesis
      proof (cases "is_continuation ch2")
        case True
        with u Cons show ?thesis
          by (intro step [of 1 "(ch - 0xC0) * 64 + (ch2 - 0x80)"]) (simp_all del: utf8_replace.simps(2))
      next
        case False
        with u Cons show ?thesis
          by (intro step [of 0 "0xFFFD"]) (simp_all del: utf8_replace.simps(2))
      qed
    qed
  next
    case three
    note u = utf8_replace_three [OF three, of s]
    show ?thesis
    proof (cases s)
      case Nil
      with u show ?thesis by (intro step [of 0 "0xFFFD"]) (simp_all del: utf8_replace.simps(2))
    next
      case s: (Cons ch2 s2)
      show ?thesis
      proof (cases "is_continuation ch2 \<and> (if ch2 < 0xA0 then ch \<noteq> 0xE0 else ch \<noteq> 0xED)")
        case False
        with u s show ?thesis
          by (intro step [of 0 "0xFFFD"]) (simp_all del: utf8_replace.simps(2))
      next
        case ok2: True
        show ?thesis
        proof (cases s2)
          case Nil
          with u s ok2 show ?thesis
            by (intro step [of 1 "0xFFFD"]) (simp_all del: utf8_replace.simps(2))
        next
          case s2: (Cons ch3 s3)
          show ?thesis
          proof (cases "is_continuation ch3")
            case True
            with u s ok2 s2 show ?thesis
              by (intro step [of 2 "(ch - 0xE0) * 4096 + (ch2 - 0x80) * 64 + (ch3 - 0x80)"])
                 (simp_all del: utf8_replace.simps(2))
          next
            case False
            with u s ok2 s2 show ?thesis
              by (intro step [of 1 "0xFFFD"]) (simp_all del: utf8_replace.simps(2))
          qed
        qed
      qed
    qed
  next
    case four
    note u = utf8_replace_four [OF four, of s]
    show ?thesis
    proof (cases s)
      case Nil
      with u show ?thesis by (intro step [of 0 "0xFFFD"]) (simp_all del: utf8_replace.simps(2))
    next
      case s: (Cons ch2 s2)
      show ?thesis
      proof (cases "is_continuation ch2 \<and> (if ch2 < 0x90 then ch \<noteq> 0xF0 else ch \<noteq> 0xF4)")
        case False
        with u s show ?thesis
          by (intro step [of 0 "0xFFFD"]) (simp_all del: utf8_replace.simps(2))
      next
        case ok2: True
        show ?thesis
        proof (cases s2)
          case Nil
          with u s ok2 show ?thesis
            by (intro step [of 1 "0xFFFD"]) (simp_all del: utf8_replace.simps(2))
        next
          case s2: (Cons ch3 s3)
          show ?thesis
          proof (cases "is_continuation ch3")
            case False
            with u s ok2 s2 show ?thesis
              by (intro step [of 1 "0xFFFD"]) (simp_all del: utf8_replace.simps(2))
          next
            case ok3: True
            show ?thesis
            proof (cases s3)
              case Nil
              with u s ok2 s2 ok3 show ?thesis
                by (intro step [of 2 "0xFFFD"]) (simp_all del: utf8_replace.simps(2))
            next
              case s3: (Cons ch4 s4)
              show ?thesis
              proof (cases "is_continuation ch4")
                case True
                with u s ok2 s2 ok3 s3 show ?thesis
                  by (intro step [of 3 "(ch - 0xF0) * 262144 + (ch2 - 0x80) * 4096
                                + (ch3 - 0x80) * 64 + (ch4 - 0x80)"])
                     (simp_all del: utf8_replace.simps(2))
              next
                case False
                with u s ok2 s2 ok3 s3 show ?thesis
                  by (intro step [of 2 "0xFFFD"]) (simp_all del: utf8_replace.simps(2))
              qed
            qed
          qed
        qed
      qed
    qed
  qed
qed

lemma utf8_replace_Nil_iff: "utf8_replace xs = [] \<longleftrightarrow> xs = []"
proof (cases xs)
  case Nil
  then show ?thesis by simp
next
  case (Cons ch s)
  with utf8_replace_Cons [of s ch] show ?thesis by (auto simp del: utf8_replace.simps(2))
qed

lemma utf8_replace_ascii: "\<forall>ch\<in>set xs. ch < 0x80 \<Longrightarrow> utf8_replace xs = xs"
  by (induction xs) simp_all

lemma utf8_replace_length: "length (utf8_replace xs) \<le> length xs"
proof (induction "length xs" arbitrary: xs rule: less_induct)
  case less
  show ?case
  proof (cases xs)
    case Nil
    then show ?thesis by simp
  next
    case (Cons ch s)
    from utf8_replace_Cons [of s ch] obtain cp k
      where k: "k \<le> length s" and u: "utf8_replace (ch # s) = cp # utf8_replace (drop k s)"
      by blast
    have "length (utf8_replace (drop k s)) \<le> length (drop k s)"
      by (rule less) (simp add: Cons)
    with u k Cons show ?thesis by (simp del: utf8_replace.simps(2))
  qed
qed

lemma decimal_value: "foldl (\<lambda>a d. 10 * a + (d - 48)) 0 (decimal n) = n"
proof (induction n rule: decimal.induct)
  case (1 n)
  show ?case
  proof (cases "n < 10")
    case True
    then show ?thesis by (simp add: decimal.simps [of n])
  next
    case False
    with "1.IH" show ?thesis by (simp add: decimal.simps [of n])
  qed
qed

lemma decimal_inj: "decimal i = decimal j \<Longrightarrow> i = j"
  by (metis decimal_value)

lemma recovered_file_name_inj: "recovered_file_name i = recovered_file_name j \<longleftrightarrow> i = j"
  by (auto simp: recovered_file_name_def dest: decimal_inj)

lemma entry_filename_cases:
  "entry_filename i None = recovered_file_name i"
  "entry_filename i (Some []) = recovered_file_name i"
  "t \<noteq> [] \<Longrightarrow> entry_filename i (Some t) = t"
  by (simp_all add: entry_filename_def)

lemma next_offset_nth:
  "sorted_wrt (<) hs \<Longrightarrow> i < length hs \<Longrightarrow>
     next_offset hs (hs ! i) = (if Suc i < length hs then Some (hs ! Suc i) else None)"
proof (induction hs arbitrary: i)
  case Nil
  then show ?case by simp
next
  case (Cons h rest)
  show ?case
  proof (cases i)
    case 0
    show ?thesis
    proof (cases rest)
      case Nil
      with 0 show ?thesis by simp
    next
      case (Cons h' rest')
      with Cons.prems 0 show ?thesis by simp
    qed
  next
    case (Suc j)
    with Cons.prems have j: "j < length rest" and "h < rest ! j" and "sorted_wrt (<) rest"
      by simp_all
    with Cons.IH [of j] Suc show ?thesis by simp
  qed
qed

lemma nth_least_above:
  fixes hs :: "nat list"
  assumes "sorted_wrt (<) hs" "Suc i < length hs" "h \<in> set hs" "hs ! i < h"
  shows "hs ! Suc i \<le> h"
proof -
  from assms(3) obtain k where k: "k < length hs" "h = hs ! k"
    by (auto simp: in_set_conv_nth)
  have "i < k"
  proof (rule ccontr)
    assume "\<not> i < k"
    then have "k = i \<or> k < i" by arith
    then have "hs ! k \<le> hs ! i"
      using assms(1,2) by (auto simp: sorted_wrt_iff_nth_less less_imp_le)
    with k assms(4) show False by simp
  qed
  then have "Suc i = k \<or> Suc i < k" by arith
  then show ?thesis
    using assms(1) k by (auto simp: sorted_wrt_iff_nth_less less_imp_le)
qed

section \<open>Facts about payload boundaries and the loop\<close>

lemma up_to_next_bounds_readable:
  "unpack_H (slice data (offset + 26) (offset + 28)) = Inr n \<Longrightarrow>
   unpack_H (slice data (offset + 28) (offset + 30)) = Inr x \<Longrightarrow>
   up_to_next_bounds data offset nxt fl = (Some n, Inr (offset + 30 + n + x, nxt))"
  by (simp add: up_to_next_bounds_def Let_def)

lemma one_mib_bounds_readable:
  "unpack_H (slice data (offset + 26) (offset + 28)) = Inr n \<Longrightarrow>
   unpack_H (slice data (offset + 28) (offset + 30)) = Inr x \<Longrightarrow>
   one_mib_bounds data offset fl
     = (Some n, Inr (offset + 30 + n + x, offset + 30 + n + x + 1048576))"
  by (simp add: one_mib_bounds_def Let_def)

lemma declared_size_bounds_unbound: "\<exists>e. declared_size_bounds data offset None = Inl e"
  by (simp add: declared_size_bounds_def split: sum.splits)

lemma declared_size_bounds_bound:
  "unpack_I (slice data (offset + 18) (offset + 22)) = Inr c \<Longrightarrow>
   unpack_H (slice data (offset + 28) (offset + 30)) = Inr x \<Longrightarrow>
   declared_size_bounds data offset (Some m)
     = Inr (offset + 30 + m + x, offset + 30 + m + x + c)"
  by (simp add: declared_size_bounds_def Let_def)

lemma file_data_bounds_start:
  "file_data_bounds data hs offset fl = (fl', Inr (a, b)) \<Longrightarrow> offset + 30 \<le> a"
  by (auto simp: file_data_bounds_def declared_size_bounds_def one_mib_bounds_def
        up_to_next_bounds_def Let_def split: option.splits sum.splits)

lemma file_data_bounds_not_last:
  "next_offset hs offset = Some nxt \<Longrightarrow>
   file_data_bounds data hs offset fl = up_to_next_bounds data offset nxt fl"
  by (simp add: file_data_bounds_def)

lemma up_to_next_bounds_stop:
  "up_to_next_bounds data offset nxt fl = (fl', Inr (a, b)) \<Longrightarrow> b = nxt"
  by (auto simp: up_to_next_bounds_def Let_def split: sum.splits)

lemma process_entry_filename_length:
  "filename_length (process_entry w data hs (i, offset) st)
     = fst (file_data_bounds data hs offset (filename_length st))"
  by (simp add: process_entry_def Let_def split: prod.splits sum.splits write_result.splits)

lemma process_entry_new_zip:
  "new_zip (process_entry w data hs (i, offset) st) =
     replay w (new_zip st)
       (case snd (file_data_bounds data hs offset (filename_length st)) of
          Inl e \<Rightarrow> []
        | Inr (a, b) \<Rightarrow>
            [(entry_filename i (extract_filename_from_header data offset), slice data a b)])"
  by (simp add: process_entry_def Let_def split: prod.splits sum.splits write_result.splits)

lemma process_entry_list_writer:
  "new_zip (process_entry list_writer data hs (i, offset) st) =
     new_zip st @
       (case snd (file_data_bounds data hs offset (filename_length st)) of
          Inl e \<Rightarrow> []
        | Inr (a, b) \<Rightarrow>
            [(entry_filename i (extract_filename_from_header data offset), slice data a b)])"
  by (simp add: process_entry_def list_writer_def Let_def split: prod.splits sum.splits)

lemma process_entry_printed:
  "\<exists>m. printed (process_entry w data hs (i, offset) st) = printed st @ [m]
     \<and> (m = RecoveredFile (entry_filename i (extract_filename_from_header data offset))
          \<or> (\<exists>e. m = ErrorProcessing offset e))"
  by (simp add: process_entry_def Let_def split: prod.splits sum.splits write_result.splits)

lemma replay_append: "replay w z (ps @ qs) = replay w (replay w z ps) qs"
  by (induction ps arbitrary: z) auto

lemma fold_process_entry_replay:
  "filename_length st = filename_length st' \<Longrightarrow>
   \<exists>ps. new_zip (fold (process_entry list_writer data hs) es st') = new_zip st' @ ps
      \<and> new_zip (fold (process_entry w data hs) es st) = replay w (new_zip st) ps"
proof (induction es arbitrary: st st')
  case Nil
  then show ?case by simp
next
  case (Cons entry es)
  obtain i offset where entry: "entry = (i, offset)" by (cases entry)
  define offered where "offered =
    (case snd (file_data_bounds data hs offset (filename_length st)) of
       Inl e \<Rightarrow> []
     | Inr (a, b) \<Rightarrow>
         [(entry_filename i (extract_filename_from_header data offset), slice data a b)])"
  let ?st1 = "process_entry w data hs entry st"
  let ?st1' = "process_entry list_writer data hs entry st'"
  have same: "filename_length ?st1 = filename_length ?st1'"
    by (simp add: entry process_entry_filename_length Cons.prems)
  have z1: "new_zip ?st1 = replay w (new_zip st) offered"
    by (simp add: entry process_entry_new_zip offered_def)
  have z1': "new_zip ?st1' = new_zip st' @ offered"
    by (simp add: entry process_entry_list_writer offered_def Cons.prems)
  from Cons.IH [OF same] obtain ps
    where l: "new_zip (fold (process_entry list_writer data hs) es ?st1') = new_zip ?st1' @ ps"
      and r: "new_zip (fold (process_entry w data hs) es ?st1) = replay w (new_zip ?st1) ps"
    by blast
  have "new_zip (fold (process_entry list_writer data hs) (entry # es) st')
      = new_zip st' @ (offered @ ps)"
    using l z1' by simp
  moreover have "new_zip (fold (process_entry w data hs) (entry # es) st)
      = replay w (new_zip st) (offered @ ps)"
    using r z1 by (simp add: replay_append)
  ultimately show ?case by blast
qed

lemma fold_process_entry_printed:
  "\<exists>ms. printed (fold (process_entry w data hs) (enumerate s xs) st) = printed st @ ms
      \<and> length ms = length xs
      \<and> (\<forall>k<length xs.
            ms ! k = RecoveredFile
                       (entry_filename (s + k) (extract_filename_from_header data (xs ! k)))
            \<or> (\<exists>e. ms ! k = ErrorProcessing (xs ! k) e))"
proof (induction xs arbitrary: s st)
  case Nil
  then show ?case by simp
next
  case (Cons x xs)
  let ?st1 = "process_entry w data hs (s, x) st"
  from process_entry_printed [of w data hs s x st] obtain m
    where m: "printed ?st1 = printed st @ [m]"
      and m_kind: "m = RecoveredFile (entry_filename s (extract_filename_from_header data x))
          \<or> (\<exists>e. m = ErrorProcessing x e)"
    by blast
  from Cons.IH [of "Suc s" ?st1] obtain ms
    where ms: "printed (fold (process_entry w data hs) (enumerate (Suc s) xs) ?st1)
                 = printed ?st1 @ ms"
      and len: "length ms = length xs"
      and kinds: "\<And>k. k < length xs \<Longrightarrow>
            ms ! k = RecoveredFile
                       (entry_filename (Suc s + k) (extract_filename_from_header data (xs ! k)))
            \<or> (\<exists>e. ms ! k = ErrorProcessing (xs ! k) e)"
    by blast
  have "printed (fold (process_entry w data hs) (enumerate s (x # xs)) st)
      = printed st @ (m # ms)"
    using m ms by simp
  moreover have "length (m # ms) = length (x # xs)"
    using len by simp
  moreover have "(m # ms) ! k = RecoveredFile
                       (entry_filename (s + k) (extract_filename_from_header data ((x # xs) ! k)))
            \<or> (\<exists>e. (m # ms) ! k = ErrorProcessing ((x # xs) ! k) e)"
    if "k < length (x # xs)" for k
  proof (cases k)
    case 0
    with m_kind show ?thesis by simp
  next
    case (Suc j)
    with that kinds [of j] show ?thesis by simp
  qed
  ultimately show ?case by blast
qed

section \<open>Facts about the run and the example buffers\<close>

lemma headers_empty_iff:
  "local_headers (find_file_signatures data) = [] \<longleftrightarrow> (\<nexists>p. occurs_at data LOCAL_FILE_HEADER p)"
  using local_headers_set [of data] by (auto simp flip: set_empty)

lemma repair_zip_no_headers:
  "local_headers (find_file_signatures data) = [] \<Longrightarrow>
   repair_zip w z data = \<lparr>success = False, output_zip = None, messages = [NoHeadersFound]\<rparr>"
  by (simp add: repair_zip_def)

lemma repair_zip_headers:
  "local_headers (find_file_signatures data) = hs \<Longrightarrow> hs \<noteq> [] \<Longrightarrow>
   repair_zip w z data =
     \<lparr>success = True,
      output_zip = Some (new_zip (fold (process_entry w data hs) (enumerate 0 hs)
        \<lparr>filename_length = None, new_zip = z, printed = [FoundEntries (length hs)]\<rparr>)),
      messages = printed (fold (process_entry w data hs) (enumerate 0 hs)
        \<lparr>filename_length = None, new_zip = z, printed = [FoundEntries (length hs)]\<rparr>)
        @ [RepairCompleted]\<rparr>"
  by (simp add: repair_zip_def Let_def)

lemma repair_zip_output_replay:
  "output_zip (repair_zip w z data) =
     (if local_headers (find_file_signatures data) = [] then None
      else Some (replay w z (recovered_entries data)))"
proof (cases "local_headers (find_file_signatures data) = []")
  case True
  then show ?thesis by (simp add: repair_zip_no_headers)
next
  case False
  define hs where "hs = local_headers (find_file_signatures data)"
  let ?st = "\<lparr>filename_length = None, new_zip = z, printed = [FoundEntries (length hs)]\<rparr>"
  let ?st' = "\<lparr>filename_length = None, new_zip = [] :: (pystr \<times> byte list) list,
                 printed = [FoundEntries (length hs)]\<rparr>"
  have "filename_length ?st = filename_length ?st'" by simp
  from fold_process_entry_replay [OF this, of data hs "enumerate 0 hs" w] obtain ps
    where l: "new_zip (fold (process_entry list_writer data hs) (enumerate 0 hs) ?st') = ps"
      and r: "new_zip (fold (process_entry w data hs) (enumerate 0 hs) ?st) = replay w z ps"
    by auto
  from False l have "recovered_entries data = ps"
    by (simp add: recovered_entries_def repair_zip_headers [OF hs_def [symmetric]] hs_def)
  with False r show ?thesis
    by (simp add: repair_zip_headers [OF hs_def [symmetric]] hs_def)
qed

lemma headers_two_entries_buf: "local_headers (find_file_signatures two_entries_buf) = [0, 33]"
  by code_simp

lemma signatures_archive_buf:
  "find_file_signatures archive_buf
     = \<lparr>local_headers = [0], central_dir_headers = [32], end_of_central_dir = Some 79\<rparr>"
  by code_simp

lemma slice_nth:
  "k < length (slice xs a b) \<Longrightarrow> slice xs a b ! k = xs ! (a + k)"
  by (cases "a \<le> length xs") (simp_all add: slice_def)

lemma slice_length_clipped:
  "length (slice xs a b) = min b (length xs) - min a (length xs)"
  by (simp add: slice_def)

lemma headers_strictly_ascending:
  "hs = local_headers (find_file_signatures data) \<Longrightarrow> i < j \<Longrightarrow> j < length hs
     \<Longrightarrow> hs ! i < hs ! j"
  using local_headers_sorted [of data] by (simp add: sorted_wrt_iff_nth_less)

lemma two_entries_fields:
  "unpack_H (slice two_entries_buf (0 + 26) (0 + 28)) = Inr 1"
  "unpack_H (slice two_entries_buf (0 + 28) (0 + 30)) = Inr 0"
  "unpack_I (slice two_entries_buf (33 + 18) (33 + 22)) = Inr 1"
  "unpack_H (slice two_entries_buf (33 + 26) (33 + 28)) = Inr 2"
  "unpack_H (slice two_entries_buf (33 + 28) (33 + 30)) = Inr 0"
  by (simp_all add: unpack_H_def unpack_I_def slice_def two_entries_buf_def)

lemma two_entries_names:
  "extract_filename_from_header two_entries_buf 0 = Some [0x78]"
  "extract_filename_from_header two_entries_buf 33 = Some [0x79, 0x7A]"
  by (simp_all add: extract_filename_from_header_def unpack_H_def slice_def
        two_entries_buf_def decode_utf8_replace_def)

lemma two_entries_bounds:
  "file_data_bounds two_entries_buf [0, 33] 0 None = (Some 1, Inr (31, 33))"
  "file_data_bounds two_entries_buf [0, 33] 33 (Some 1) = (Some 1, Inr (64, 65))"
  using two_entries_fields
  by (simp_all add: file_data_bounds_def up_to_next_bounds_def declared_size_bounds_def)

lemma two_entries_slices:
  "slice two_entries_buf 31 33 = [0x41, 0x42]"
  "slice two_entries_buf 64 65 = [0x7A]"
  "slice two_entries_buf 65 66 = [0x43]"
  by (simp_all add: slice_def two_entries_buf_def)

lemma adjacent_headers: "local_headers (find_file_signatures adjacent_buf) = [0, 31]"
  by code_simp

lemma adjacent_fields:
  "unpack_H (slice adjacent_buf (0 + 26) (0 + 28)) = Inr 1"
  "unpack_H (slice adjacent_buf (0 + 28) (0 + 30)) = Inr 0"
  by (simp_all add: unpack_H_def slice_def adjacent_buf_def)

lemma replay_list_writer: "replay list_writer z ps = z @ ps"
  by (induction ps arbitrary: z) (auto simp: list_writer_def)

lemma single_entry_headers: "local_headers (find_file_signatures single_entry_buf) = [0]"
  by code_simp

lemma single_entry_fields:
  "unpack_I (slice single_entry_buf (0 + 18) (0 + 22)) = Inr 5"
  "unpack_H (slice single_entry_buf (0 + 26) (0 + 28)) = Inr 5"
  "unpack_H (slice single_entry_buf (0 + 28) (0 + 30)) = Inr 0"
  by (simp_all add: unpack_H_def unpack_I_def slice_def single_entry_buf_def)

lemma single_entry_name:
  "extract_filename_from_header single_entry_buf 0 = Some (ascii ''a.txt'')"
  by (simp add: extract_filename_from_header_def unpack_H_def slice_def
        single_entry_buf_def decode_utf8_replace_def ascii_def)

lemma single_entry_slices:
  "take 1048576 (drop 35 single_entry_buf) = [0x68, 0x65, 0x6C, 0x6C, 0x6F, 0x21]"
  "slice single_entry_buf 35 (35 + 5) = [0x68, 0x65, 0x6C, 0x6C, 0x6F]"
  by (simp_all add: slice_def single_entry_buf_def)

lemma single_entry_bounds:
  "file_data_bounds single_entry_buf [0] 0 None = (Some 5, Inr (35, 1048611))"
  using single_entry_fields
  by (simp add: file_data_bounds_def declared_size_bounds_def one_mib_bounds_def)

lemma single_entry_run:
  "recovered_entries single_entry_buf
     = [(ascii ''a.txt'', [0x68, 0x65, 0x6C, 0x6C, 0x6F, 0x21])]"
proof -
  have "slice single_entry_buf 35 1048611 = [0x68, 0x65, 0x6C, 0x6C, 0x6F, 0x21]"
    by (simp add: slice_def single_entry_buf_def)
  then show ?thesis
    using repair_zip_headers [OF single_entry_headers, of list_writer "[]"]
      single_entry_bounds single_entry_name
    by (simp add: recovered_entries_def process_entry_list_writer entry_filename_def ascii_def)
qed

lemma two_entries_run:
  "recovered_entries two_entries_buf
     = [([0x78], [0x41, 0x42]), ([0x79, 0x7A], [0x7A])]"
  using repair_zip_headers [OF headers_two_entries_buf, of list_writer "[]"]
    two_entries_bounds two_entries_names two_entries_slices
  by (simp add: recovered_entries_def process_entry_list_writer
        process_entry_filename_length entry_filename_def)

lemma repair_zip_messages:
  assumes hs: "hs = local_headers (find_file_signatures data)" and some: "hs \<noteq> []"
  shows "\<exists>ms. messages (repair_zip w z data) = FoundEntries (length hs) # ms @ [RepairCompleted]
     \<and> length ms = length hs
     \<and> (\<forall>k<length hs.
           ms ! k = RecoveredFile
                      (entry_filename k (extract_filename_from_header data (hs ! k)))
           \<or> (\<exists>e. ms ! k = ErrorProcessing (hs ! k) e))"
proof -
  let ?st = "\<lparr>filename_length = None, new_zip = z, printed = [FoundEntries (length hs)]\<rparr>"
  from fold_process_entry_printed [of w data hs 0 hs ?st] obtain ms
    where p: "printed (fold (process_entry w data hs) (enumerate 0 hs) ?st) = printed ?st @ ms"
      and len: "length ms = length hs"
      and kinds: "\<forall>k<length hs.
           ms ! k = RecoveredFile
                      (entry_filename (0 + k) (extract_filename_from_header data (hs ! k)))
           \<or> (\<exists>e. ms ! k = ErrorProcessing (hs ! k) e)"
    by blast
  have "messages (repair_zip w z data) = FoundEntries (length hs) # ms @ [RepairCompleted]"
    using repair_zip_headers [OF hs [symmetric] some, of w z] p by simp
  with len kinds show ?thesis by auto
qed

lemma two_entries_refused_run:
  "repair_zip (refusing_writer [0x78]) [] two_entries_buf
     = \<lparr>success = True, output_zip = Some [([0x79, 0x7A], [0x7A])],
        messages = [FoundEntries 2, ErrorProcessing 0 WriteError,
                    RecoveredFile [0x79, 0x7A], RepairCompleted]\<rparr>"
  using repair_zip_headers [OF headers_two_entries_buf, of "refusing_writer [0x78]" "[]"]
    two_entries_bounds two_entries_names two_entries_slices
  by (simp add: process_entry_def refusing_writer_def entry_filename_def Let_def)

lemma decimal_digits: "set (decimal n) \<subseteq> {48..57}"
proof (induction n rule: decimal.induct)
  case (1 n)
  show ?case
  proof (cases "n < 10")
    case True
    then show ?thesis by (simp add: decimal.simps [of n])
  next
    case False
    with "1.IH" have "set (decimal (n div 10)) \<subseteq> {48..57}" by simp
    moreover have "n mod 10 < 10" by simp
    ultimately show ?thesis
      using False by (simp add: decimal.simps [of n])
  qed
qed

lemma utf8_replace_cut_off_three:
  "0xE0 \<le> ch \<Longrightarrow> ch < 0xF0 \<Longrightarrow> is_continuation ch2 \<Longrightarrow>
   (if ch2 < 0xA0 then ch \<noteq> 0xE0 else ch \<noteq> 0xED) \<Longrightarrow>
   utf8_replace [ch, ch2] = [0xFFFD]"
  by (simp add: utf8_replace_three del: utf8_replace.simps(2))

lemma utf8_replace_cut_off_four:
  "0xF0 \<le> ch \<Longrightarrow> ch < 0xF5 \<Longrightarrow> is_continuation ch2 \<Longrightarrow>
   (if ch2 < 0x90 then ch \<noteq> 0xF0 else ch \<noteq> 0xF4) \<Longrightarrow> is_continuation ch3 \<Longrightarrow>
   utf8_replace [ch, ch2, ch3] = [0xFFFD]"
  by (simp add: utf8_replace_four del: utf8_replace.simps(2))

lemma truncated_name_extracted:
  "extract_filename_from_header truncated_name_buf 0 = Some [0xFFFD]"
  by (simp add: extract_filename_from_header_def unpack_H_def slice_def
        truncated_name_buf_def decode_utf8_replace_def is_continuation_def)

lemma truncated_name_bytes:
  "unpack_H (slice truncated_name_buf (0 + 26) (0 + 28)) = Inr 2"
  "slice truncated_name_buf (0 + 30) (0 + 30 + 2) = [0xE2, 0x82]"
  by (simp_all add: unpack_H_def slice_def truncated_name_buf_def)

lemma cut_header_extracted:
  "length cut_header_buf = 28"
  "unpack_H (slice cut_header_buf (0 + 28) (0 + 30)) = Inl StructError"
  "extract_filename_from_header cut_header_buf 0 = Some []"
  by (simp_all add: cut_header_buf_def single_entry_buf_def extract_filename_from_header_def
        unpack_H_def slice_def decode_utf8_replace_def)

section \<open>Facts about the replacement policy and the loop states of a run\<close>

lemma second_ok_two:
  "0xC2 \<le> ch \<Longrightarrow> ch < 0xE0 \<Longrightarrow> second_ok ch b \<longleftrightarrow> is_continuation b"
  by (auto simp: second_ok_def is_continuation_def)

lemma second_ok_three:
  "0xE0 \<le> ch \<Longrightarrow> ch < 0xF0 \<Longrightarrow>
   second_ok ch b \<longleftrightarrow> is_continuation b \<and> (if b < 0xA0 then ch \<noteq> 0xE0 else ch \<noteq> 0xED)"
  by (auto simp: second_ok_def is_continuation_def)

lemma second_ok_four:
  "0xF0 \<le> ch \<Longrightarrow> ch < 0xF5 \<Longrightarrow>
   second_ok ch b \<longleftrightarrow> is_continuation b \<and> (if b < 0x90 then ch \<noteq> 0xF0 else ch \<noteq> 0xF4)"
  by (auto simp: second_ok_def is_continuation_def)

lemma seq_length_classes:
  "ch < 0x80 \<Longrightarrow> seq_length ch = 1"
  "0x80 \<le> ch \<Longrightarrow> ch < 0xC2 \<Longrightarrow> seq_length ch = 0"
  "0xC2 \<le> ch \<Longrightarrow> ch < 0xE0 \<Longrightarrow> seq_length ch = 2"
  "0xE0 \<le> ch \<Longrightarrow> ch < 0xF0 \<Longrightarrow> seq_length ch = 3"
  "0xF0 \<le> ch \<Longrightarrow> ch < 0xF5 \<Longrightarrow> seq_length ch = 4"
  "0xF5 \<le> ch \<Longrightarrow> seq_length ch = 0"
  by (simp_all add: seq_length_def)

lemmas policy_defs = sequence_at_def error_range_def valid_prefix_def scalar_value_def

lemma utf8_replace_policy:
  "utf8_replace (ch # s) =
     (if sequence_at (ch # s) \<noteq> 0
      then scalar_value (take (sequence_at (ch # s)) (ch # s))
             # utf8_replace (drop (sequence_at (ch # s)) (ch # s))
      else 0xFFFD # utf8_replace (drop (error_range (ch # s)) (ch # s)))"
proof (cases ch rule: lead_byte_cases)
  case ascii
  then show ?thesis
    by (simp add: policy_defs seq_length_classes del: utf8_replace.simps(2)
          add: utf8_replace_single)
next
  case stray
  then show ?thesis
    by (simp add: policy_defs seq_length_classes utf8_replace_stray del: utf8_replace.simps(2))
next
  case high
  then show ?thesis
    by (simp add: policy_defs seq_length_classes utf8_replace_stray del: utf8_replace.simps(2))
next
  case two
  note u = utf8_replace_two [OF two, of s] and l = seq_length_classes(3) [OF two]
    and ok = second_ok_two [OF two]
  show ?thesis
  proof (cases s)
    case Nil
    with u l show ?thesis
      by (simp add: policy_defs del: utf8_replace.simps(2))
  next
    case (Cons ch2 s2)
    with u l ok show ?thesis
      by (cases s2) (simp_all add: policy_defs del: utf8_replace.simps(2))
  qed
next
  case three
  note l = seq_length_classes(4) [OF three]
  show ?thesis
  proof (cases s)
    case Nil
    with utf8_replace_three [OF three, of s] l show ?thesis
      by (simp add: policy_defs del: utf8_replace.simps(2))
  next
    case s: (Cons ch2 s2)
    define ok2 where "ok2 \<longleftrightarrow> second_ok ch ch2"
    have u: "utf8_replace (ch # s) =
        (if ok2
         then (case s2 of
                 [] \<Rightarrow> [0xFFFD]
               | ch3 # s3 \<Rightarrow>
                   if is_continuation ch3
                   then ((ch - 0xE0) * 4096 + (ch2 - 0x80) * 64 + (ch3 - 0x80)) # utf8_replace s3
                   else 0xFFFD # utf8_replace s2)
         else 0xFFFD # utf8_replace s)"
      unfolding ok2_def second_ok_three [OF three]
      using utf8_replace_three [OF three, of s] by (simp only: s list.case)
    show ?thesis
    proof (cases s2)
      case Nil
      with u l s show ?thesis
        by (cases ok2)
           (simp_all add: policy_defs ok2_def [symmetric] del: utf8_replace.simps(2))
    next
      case (Cons ch3 s3)
      with u l s show ?thesis
        by (cases ok2; cases "is_continuation ch3")
           (simp_all add: policy_defs ok2_def [symmetric] del: utf8_replace.simps(2))
    qed
  qed
next
  case four
  note l = seq_length_classes(5) [OF four]
  show ?thesis
  proof (cases s)
    case Nil
    with utf8_replace_four [OF four, of s] l show ?thesis
      by (simp add: policy_defs del: utf8_replace.simps(2))
  next
    case s: (Cons ch2 s2)
    define ok2 where "ok2 \<longleftrightarrow> second_ok ch ch2"
    have u: "utf8_replace (ch # s) =
        (if ok2
         then (case s2 of
                 [] \<Rightarrow> [0xFFFD]
               | ch3 # s3 \<Rightarrow>
                   if is_continuation ch3
                   then (case s3 of
                           [] \<Rightarrow> [0xFFFD]
                         | ch4 # s4 \<Rightarrow>
                             if is_continuation ch4
                             then ((ch - 0xF0) * 262144 + (ch2 - 0x80) * 4096
                                     + (ch3 - 0x80) * 64 + (ch4 - 0x80)) # utf8_replace s4
                             else 0xFFFD # utf8_replace s3)
                   else 0xFFFD # utf8_replace s2)
         else 0xFFFD # utf8_replace s)"
      unfolding ok2_def second_ok_four [OF four]
      using utf8_replace_four [OF four, of s] by (simp only: s list.case)
    show ?thesis
    proof (cases s2)
      case Nil
      with u l s show ?thesis
        by (cases ok2)
           (simp_all add: policy_defs ok2_def [symmetric] del: utf8_replace.simps(2))
    next
      case s2: (Cons ch3 s3)
      show ?thesis
      proof (cases s3)
        case Nil
        with u l s s2 show ?thesis
          by (cases ok2; cases "is_continuation ch3")
             (simp_all add: policy_defs ok2_def [symmetric] del: utf8_replace.simps(2))
      next
        case (Cons ch4 s4)
        with u l s s2 show ?thesis
          by (cases ok2; cases "is_continuation ch3"; cases "is_continuation ch4")
             (simp_all add: policy_defs ok2_def [symmetric] del: utf8_replace.simps(2))
      qed
    qed
  qed
qed

lemma error_range_bounds:
  "xs \<noteq> [] \<Longrightarrow> 1 \<le> error_range xs \<and> error_range xs \<le> 3 \<and> error_range xs \<le> length xs"
  by (cases xs) (auto simp: error_range_def)

lemma sequence_at_bounds: "sequence_at xs \<le> 4 \<and> sequence_at xs \<le> length xs"
  by (cases xs) (auto simp: sequence_at_def seq_length_def)

lemma state_before_0:
  "state_before w z data 0 =
     \<lparr>filename_length = None, new_zip = z,
      printed = [FoundEntries (length (local_headers (find_file_signatures data)))]\<rparr>"
  by (simp add: state_before_def)

lemma state_before_Suc:
  assumes hs: "hs = local_headers (find_file_signatures data)" and k: "k < length hs"
  shows "state_before w z data (Suc k)
     = process_entry w data hs (k, hs ! k) (state_before w z data k)"
proof -
  from k have "take (Suc k) (enumerate 0 hs) = take k (enumerate 0 hs) @ [(k, hs ! k)]"
    by (simp add: take_Suc_conv_app_nth nth_enumerate_eq)
  then show ?thesis
    by (simp add: state_before_def hs [symmetric] Let_def)
qed

lemma repair_zip_state_before:
  assumes hs: "hs = local_headers (find_file_signatures data)" and some: "hs \<noteq> []"
  shows "repair_zip w z data =
     \<lparr>success = True,
      output_zip = Some (new_zip (state_before w z data (length hs))),
      messages = printed (state_before w z data (length hs)) @ [RepairCompleted]\<rparr>"
  using repair_zip_headers [OF hs [symmetric] some, of w z]
  by (simp add: state_before_def hs [symmetric] Let_def)

lemma process_entry_bounds_raise:
  "file_data_bounds data hs offset (filename_length st) = (fl, Inl e) \<Longrightarrow>
   printed (process_entry w data hs (i, offset) st) = printed st @ [ErrorProcessing offset e]
   \<and> new_zip (process_entry w data hs (i, offset) st) = new_zip st"
  by (simp add: process_entry_def Let_def)

lemma process_entry_writer_raises:
  "file_data_bounds data hs offset (filename_length st) = (fl, Inr (a, b)) \<Longrightarrow>
   w (new_zip st) (entry_filename i (extract_filename_from_header data offset))
     (slice data a b) = WriteRaised z' \<Longrightarrow>
   printed (process_entry w data hs (i, offset) st)
     = printed st @ [ErrorProcessing offset WriteError]"
  by (simp add: process_entry_def Let_def)

lemma file_data_bounds_truncated:
  assumes short: "length data < offset + 28"
  shows "file_data_bounds data hs offset fl = (fl, Inl StructError)"
proof -
  have no_name: "unpack_H (slice data (offset + 26) (offset + 28)) = Inl StructError"
    using short by (simp add: unpack_H_Inl_iff length_slice)
  have no_extra: "unpack_H (slice data (offset + 28) (offset + 30)) = Inl StructError"
    using short by (simp add: unpack_H_Inl_iff length_slice)
  have "\<exists>e. declared_size_bounds data offset fl = Inl e"
    using no_extra by (simp add: declared_size_bounds_def split: sum.splits)
  then show ?thesis
    using no_name
    by (auto simp: file_data_bounds_def one_mib_bounds_def up_to_next_bounds_def
          split: option.splits)
qed

lemma process_entry_extraction_fails:
  assumes "extract_filename_from_header data offset = None"
  shows "printed (process_entry w data hs (i, offset) st)
     = printed st @ [ErrorProcessing offset StructError]"
proof -
  from assms have "length data < offset + 28"
    by (simp add: extract_filename_None)
  then have "file_data_bounds data hs offset (filename_length st)
      = (filename_length st, Inl StructError)"
    by (rule file_data_bounds_truncated)
  from process_entry_bounds_raise [OF this] show ?thesis
    by simp
qed

lemma state_before_printed_length:
  assumes hs: "hs = local_headers (find_file_signatures data)"
  shows "k \<le> length hs \<Longrightarrow> length (printed (state_before w z data k)) = Suc k"
proof (induction k)
  case 0
  show ?case by (simp add: state_before_0)
next
  case (Suc k)
  then have k: "k < length hs" by simp
  from process_entry_printed [of w data hs k "hs ! k" "state_before w z data k"]
  obtain m where "printed (state_before w z data (Suc k))
      = printed (state_before w z data k) @ [m]"
    unfolding state_before_Suc [OF hs k] by blast
  with Suc.IH k show ?case by simp
qed

lemma state_before_printed_prefix:
  assumes hs: "hs = local_headers (find_file_signatures data)"
  shows "k \<le> j \<Longrightarrow> j \<le> length hs \<Longrightarrow>
     take (Suc k) (printed (state_before w z data j)) = printed (state_before w z data k)"
proof (induction j)
  case 0
  then show ?case by (simp add: state_before_0)
next
  case (Suc j)
  show ?case
  proof (cases "k = Suc j")
    case True
    with state_before_printed_length [OF hs, of "Suc j" w z] Suc.prems show ?thesis
      by simp
  next
    case False
    with Suc.prems have kj: "k \<le> j" and j: "j < length hs" by simp_all
    from process_entry_printed [of w data hs j "hs ! j" "state_before w z data j"]
    obtain m where m: "printed (state_before w z data (Suc j))
        = printed (state_before w z data j) @ [m]"
      unfolding state_before_Suc [OF hs j] by blast
    from state_before_printed_length [OF hs, of j w z] j
    have "length (printed (state_before w z data j)) = Suc j" by simp
    with kj have "take (Suc k) (printed (state_before w z data j) @ [m])
        = take (Suc k) (printed (state_before w z data j))"
      by simp
    with Suc.IH [OF kj] j m show ?thesis by simp
  qed
qed

lemma run_message_nth:
  assumes hs: "hs = local_headers (find_file_signatures data)" and k: "k < length hs"
    and step: "printed (process_entry w data hs (k, hs ! k) (state_before w z data k))
        = printed (state_before w z data k) @ [m]"
  shows "printed (state_before w z data (length hs)) ! Suc k = m"
proof -
  from k have sk: "Suc k \<le> length hs" by simp
  have "printed (state_before w z data (length hs)) ! Suc k
      = take (Suc (Suc k)) (printed (state_before w z data (length hs))) ! Suc k"
    by simp
  also have "\<dots> = printed (state_before w z data (Suc k)) ! Suc k"
    using state_before_printed_prefix [OF hs sk, of w z] by simp
  also have "\<dots> = (printed (state_before w z data k) @ [m]) ! Suc k"
    by (simp add: state_before_Suc [OF hs k] step)
  also have "\<dots> = m"
    using state_before_printed_length [OF hs, of k w z] k by (simp add: nth_append)
  finally show ?thesis .
qed

section \<open>The last entry and its declared size\<close>

text \<open>
  C1 fails on the code. For the last header found, the declared-size branch never uses
  the entry's own filename length. With a single header the branch raises and the
  payload is everything up to 1 MiB after the header: for \<open>single_entry_buf\<close> (declared
  size 5, span \<open>[35, 40)\<close> inside the buffer) the recovered payload is \<open>hello!\<close>, six
  bytes, not the five bytes \<open>hello\<close> of the declared span. With an earlier entry in the
  buffer the branch computes the start from the filename length of that earlier
  entry: for \<open>two_entries_buf\<close> the last entry (filename \<open>yz\<close>, declared size 1, declared
  span \<open>[65, 66)\<close> holding \<open>C\<close>) is recovered with the payload \<open>z\<close>, cut at \<open>[64, 65)\<close>.
\<close>

theorem last_entry_ignores_own_filename_length:
  "local_headers (find_file_signatures single_entry_buf) = [0]
   \<and> unpack_I (slice single_entry_buf (0 + 18) (0 + 22)) = Inr 5
   \<and> unpack_H (slice single_entry_buf (0 + 26) (0 + 28)) = Inr 5
   \<and> unpack_H (slice single_entry_buf (0 + 28) (0 + 30)) = Inr 0
   \<and> 0 + 30 + 5 + 0 + 5 \<le> length single_entry_buf
   \<and> slice single_entry_buf (0 + 30 + 5 + 0) (0 + 30 + 5 + 0 + 5)
       = [0x68, 0x65, 0x6C, 0x6C, 0x6F]
   \<and> recovered_entries single_entry_buf
       = [(ascii ''a.txt'', [0x68, 0x65, 0x6C, 0x6C, 0x6F, 0x21])]
   \<and> local_headers (find_file_signatures two_entries_buf) = [0, 33]
   \<and> unpack_I (slice two_entries_buf (33 + 18) (33 + 22)) = Inr 1
   \<and> unpack_H (slice two_entries_buf (33 + 26) (33 + 28)) = Inr 2
   \<and> unpack_H (slice two_entries_buf (33 + 28) (33 + 30)) = Inr 0
   \<and> 33 + 30 + 2 + 0 + 1 \<le> length two_entries_buf
   \<and> slice two_entries_buf (33 + 30 + 2 + 0) (33 + 30 + 2 + 0 + 1) = [0x43]
   \<and> recovered_entries two_entries_buf
       = [([0x78], [0x41, 0x42]), ([0x79, 0x7A], [0x7A])]"
proof -
  have "length single_entry_buf = 41" "length two_entries_buf = 66"
    by (simp_all add: single_entry_buf_def two_entries_buf_def)
  then show ?thesis
    using single_entry_headers single_entry_fields single_entry_slices(2) single_entry_run
      headers_two_entries_buf two_entries_fields two_entries_slices(3) two_entries_run
    by simp
qed

section \<open>Entries followed by another header\<close>

text \<open>
  C2. For a local-header offset that is not the last one found and whose two length
  fields are readable, the header search yields the offset that follows it in the
  list, which is the smallest offset greater than the current one, and the payload is
  cut from \<open>offset + 30 + filename_length + extra_field_length\<close> up to that next offset,
  with the entry's own length fields, whatever binding of \<open>filename_length\<close> earlier
  iterations left. The declared compressed size does not enter the result; the loop
  body offers exactly this slice to the writer.
\<close>

theorem non_last_entry_span_ends_at_next_header:
  assumes hs: "hs = local_headers (find_file_signatures data)"
    and not_last: "Suc i < length hs"
    and n: "unpack_H (slice data (hs ! i + 26) (hs ! i + 28)) = Inr n"
    and x: "unpack_H (slice data (hs ! i + 28) (hs ! i + 30)) = Inr x"
  shows "next_offset hs (hs ! i) = Some (hs ! Suc i)
     \<and> hs ! i < hs ! Suc i
     \<and> (\<forall>h\<in>set hs. hs ! i < h \<longrightarrow> hs ! Suc i \<le> h)
     \<and> file_data_bounds data hs (hs ! i) fl
         = (Some n, Inr (hs ! i + 30 + n + x, hs ! Suc i))
     \<and> new_zip (process_entry w data hs (i, hs ! i) st)
         = state_after
             (w (new_zip st) (entry_filename i (extract_filename_from_header data (hs ! i)))
                (slice data (hs ! i + 30 + n + x) (hs ! Suc i)))"
proof -
  have sorted: "sorted_wrt (<) hs"
    unfolding hs by (rule local_headers_sorted)
  from not_last have i: "i < length hs" by simp
  have nxt: "next_offset hs (hs ! i) = Some (hs ! Suc i)"
    using next_offset_nth [OF sorted i] not_last by simp
  have asc: "hs ! i < hs ! Suc i"
    using headers_strictly_ascending [OF hs _ not_last, of i] by simp
  have least: "\<forall>h\<in>set hs. hs ! i < h \<longrightarrow> hs ! Suc i \<le> h"
    using nth_least_above [OF sorted not_last] by blast
  have bounds: "file_data_bounds data hs (hs ! i) fl
      = (Some n, Inr (hs ! i + 30 + n + x, hs ! Suc i))" for fl
    by (simp add: file_data_bounds_not_last [OF nxt] up_to_next_bounds_readable [OF n x])
  have "new_zip (process_entry w data hs (i, hs ! i) st)
      = state_after
          (w (new_zip st) (entry_filename i (extract_filename_from_header data (hs ! i)))
             (slice data (hs ! i + 30 + n + x) (hs ! Suc i)))"
    by (simp add: process_entry_new_zip bounds)
  with nxt asc least bounds show ?thesis by blast
qed

theorem non_last_entry_span_ends_at_next_header_witness:
  "local_headers (find_file_signatures two_entries_buf) = [0, 33]
   \<and> unpack_H (slice two_entries_buf ([0, 33] ! 0 + 26) ([0, 33] ! 0 + 28)) = Inr 1
   \<and> unpack_H (slice two_entries_buf ([0, 33] ! 0 + 28) ([0, 33] ! 0 + 30)) = Inr 0
   \<and> next_offset [0, 33] 0 = Some 33
   \<and> file_data_bounds two_entries_buf [0, 33] 0 (Some 7) = (Some 1, Inr (31, 33))
   \<and> new_zip (process_entry list_writer two_entries_buf [0, 33] (0, 0)
        \<lparr>filename_length = Some 7, new_zip = [], printed = []\<rparr>) = [([0x78], [0x41, 0x42])]"
  using non_last_entry_span_ends_at_next_header
    [of "[0, 33]" two_entries_buf 0 1 0 "Some 7" list_writer
      "\<lparr>filename_length = Some 7, new_zip = [], printed = []\<rparr>"]
    two_entries_fields
  by (simp add: headers_two_entries_buf two_entries_names two_entries_slices
        entry_filename_def list_writer_def)

section \<open>The scanner\<close>

text \<open>
  C3. For every buffer, the scanner returns exactly the offsets at which the local-header
  signature occurs, in strictly ascending order and without repetition (so as many
  offsets as there are occurrences), likewise the offsets of the
  central-directory-header signature, and the offset of the last occurrence of the
  end-of-central-directory signature, or nothing when it does not occur.
\<close>

theorem scanner_finds_all_signatures:
  "set (local_headers (find_file_signatures data)) = {p. occurs_at data LOCAL_FILE_HEADER p}
   \<and> sorted_wrt (<) (local_headers (find_file_signatures data))
   \<and> distinct (local_headers (find_file_signatures data))
   \<and> length (local_headers (find_file_signatures data))
       = card {p. occurs_at data LOCAL_FILE_HEADER p}
   \<and> set (central_dir_headers (find_file_signatures data))
       = {p. occurs_at data CENTRAL_DIR_HEADER p}
   \<and> sorted_wrt (<) (central_dir_headers (find_file_signatures data))
   \<and> distinct (central_dir_headers (find_file_signatures data))
   \<and> length (central_dir_headers (find_file_signatures data))
       = card {p. occurs_at data CENTRAL_DIR_HEADER p}
   \<and> end_of_central_dir (find_file_signatures data)
       = (if \<exists>p. occurs_at data END_OF_CENTRAL_DIR p
          then Some (Max {p. occurs_at data END_OF_CENTRAL_DIR p}) else None)"
proof -
  have dl: "distinct (local_headers (find_file_signatures data))"
    using local_headers_sorted [of data] by (simp add: strict_sorted_iff)
  have dc: "distinct (central_dir_headers (find_file_signatures data))"
    using central_headers_sorted [of data] by (simp add: strict_sorted_iff)
  have "length (local_headers (find_file_signatures data))
      = card {p. occurs_at data LOCAL_FILE_HEADER p}"
    using distinct_card [OF dl] by (simp add: local_headers_set)
  moreover have "length (central_dir_headers (find_file_signatures data))
      = card {p. occurs_at data CENTRAL_DIR_HEADER p}"
    using distinct_card [OF dc] by (simp add: central_headers_set)
  moreover have "end_of_central_dir (find_file_signatures data)
       = (if \<exists>p. occurs_at data END_OF_CENTRAL_DIR p
          then Some (Max {p. occurs_at data END_OF_CENTRAL_DIR p}) else None)"
    by (simp add: find_file_signatures_def rfind_bytes_Max)
  ultimately show ?thesis
    using dl dc local_headers_set [of data] local_headers_sorted [of data]
      central_headers_set [of data] central_headers_sorted [of data]
    by simp
qed

theorem scanner_finds_all_signatures_witness:
  "{p. occurs_at archive_buf LOCAL_FILE_HEADER p} = {0}
   \<and> {p. occurs_at archive_buf CENTRAL_DIR_HEADER p} = {32}
   \<and> (\<exists>p. occurs_at archive_buf END_OF_CENTRAL_DIR p)
   \<and> Max {p. occurs_at archive_buf END_OF_CENTRAL_DIR p} = 79
   \<and> card {p. occurs_at two_entries_buf LOCAL_FILE_HEADER p} = 2"
proof -
  note archive = scanner_finds_all_signatures [of archive_buf]
  note two = scanner_finds_all_signatures [of two_entries_buf]
  from archive have "set [0] = {p. occurs_at archive_buf LOCAL_FILE_HEADER p}"
    by (simp only: signatures_archive_buf signatures.simps)
  then have l: "{p. occurs_at archive_buf LOCAL_FILE_HEADER p} = {0}"
    by simp
  from archive have "set [32] = {p. occurs_at archive_buf CENTRAL_DIR_HEADER p}"
    by (simp only: signatures_archive_buf signatures.simps)
  then have c: "{p. occurs_at archive_buf CENTRAL_DIR_HEADER p} = {32}"
    by simp
  from archive have "Some 79
      = (if \<exists>p. occurs_at archive_buf END_OF_CENTRAL_DIR p
         then Some (Max {p. occurs_at archive_buf END_OF_CENTRAL_DIR p}) else None)"
    by (simp only: signatures_archive_buf signatures.simps)
  then have e: "(\<exists>p. occurs_at archive_buf END_OF_CENTRAL_DIR p)
      \<and> Max {p. occurs_at archive_buf END_OF_CENTRAL_DIR p} = 79"
    by (auto split: if_splits)
  from two have "length [0::nat, 33] = card {p. occurs_at two_entries_buf LOCAL_FILE_HEADER p}"
    by (simp only: headers_two_entries_buf)
  then have n: "card {p. occurs_at two_entries_buf LOCAL_FILE_HEADER p} = 2"
    by simp
  from l c e n show ?thesis by blast
qed

section \<open>The verdict of the repair pass\<close>

text \<open>
  C4. The repair pass returns failure, and creates no output container, exactly when the
  buffer holds no local-header signature. With at least one signature it returns
  success and has created a container, whatever the writer does with the entries: also
  when every write raises and nothing is stored.
\<close>

theorem repair_fails_iff_no_local_header:
  "success (repair_zip w z data) = (\<exists>p. occurs_at data LOCAL_FILE_HEADER p)
   \<and> (output_zip (repair_zip w z data) = None) = (\<nexists>p. occurs_at data LOCAL_FILE_HEADER p)
   \<and> success (repair_zip failing_writer () data) = (\<exists>p. occurs_at data LOCAL_FILE_HEADER p)"
proof (cases "local_headers (find_file_signatures data) = []")
  case True
  then show ?thesis
    using headers_empty_iff [of data] by (simp add: repair_zip_no_headers)
next
  case False
  then show ?thesis
    using headers_empty_iff [of data] by (simp add: repair_zip_def Let_def)
qed

theorem repair_fails_iff_no_local_header_witness:
  "success (repair_zip failing_writer () two_entries_buf)
   \<and> output_zip (repair_zip failing_writer () two_entries_buf) \<noteq> None
   \<and> \<not> success (repair_zip list_writer [] [])
   \<and> output_zip (repair_zip list_writer [] []) = None"
proof -
  have "0 \<in> set (local_headers (find_file_signatures two_entries_buf))"
    by (simp add: headers_two_entries_buf)
  then have "occurs_at two_entries_buf LOCAL_FILE_HEADER 0"
    unfolding local_headers_set by simp
  then have some: "\<exists>p. occurs_at two_entries_buf LOCAL_FILE_HEADER p" ..
  have none: "\<nexists>p. occurs_at [] LOCAL_FILE_HEADER p"
    by (simp add: occurs_at_def LOCAL_FILE_HEADER_def)
  show ?thesis
    using repair_fails_iff_no_local_header [of failing_writer "()" two_entries_buf]
      repair_fails_iff_no_local_header [of list_writer "[]" "[]"] some none
    by simp
qed

section \<open>Clipping of payload slices\<close>

text \<open>
  C5. Cutting the payload out of the buffer clips the computed span to the buffer and
  cannot fail: a span that ends beyond the buffer yields the bytes from its start up to
  the end of the buffer, a span with \<open>start \<ge> stop\<close> yields the empty payload, and in
  general the payload holds the buffer positions from \<open>start\<close> up to \<open>stop\<close> that exist.
  Once the two bounds are computed, the loop body reaches the writer with that slice.
  In particular, when the next header starts right where the header of a non-last
  entry (with its filename and extra field) ends, that entry's payload is empty.
\<close>

theorem payload_slice_is_clipped:
  "(length data \<le> stop \<longrightarrow> slice data start stop = drop start data)
   \<and> (stop \<le> start \<longrightarrow> slice data start stop = [])
   \<and> length (slice data start stop) = min stop (length data) - min start (length data)
   \<and> (\<forall>k < length (slice data start stop). slice data start stop ! k = data ! (start + k))
   \<and> (file_data_bounds data hs offset (filename_length st) = (fl, Inr (start, stop)) \<longrightarrow>
        new_zip (process_entry w data hs (i, offset) st)
          = state_after
              (w (new_zip st) (entry_filename i (extract_filename_from_header data offset))
                 (slice data start stop)))
   \<and> (hs = local_headers (find_file_signatures data) \<and> Suc i < length hs
        \<and> unpack_H (slice data (hs ! i + 26) (hs ! i + 28)) = Inr n
        \<and> unpack_H (slice data (hs ! i + 28) (hs ! i + 30)) = Inr x
        \<and> hs ! Suc i = hs ! i + 30 + n + x \<longrightarrow>
        file_data_bounds data hs (hs ! i) fl' = (Some n, Inr (hs ! Suc i, hs ! Suc i))
        \<and> slice data (hs ! Suc i) (hs ! Suc i) = [])"
proof -
  have scenario: "file_data_bounds data hs (hs ! i) fl' = (Some n, Inr (hs ! Suc i, hs ! Suc i))"
    if hs: "hs = local_headers (find_file_signatures data)" and not_last: "Suc i < length hs"
      and n: "unpack_H (slice data (hs ! i + 26) (hs ! i + 28)) = Inr n"
      and x: "unpack_H (slice data (hs ! i + 28) (hs ! i + 30)) = Inr x"
      and adjacent: "hs ! Suc i = hs ! i + 30 + n + x"
  proof -
    have sorted: "sorted_wrt (<) hs"
      unfolding hs by (rule local_headers_sorted)
    from not_last have "i < length hs" by simp
    from next_offset_nth [OF sorted this] not_last
    have nxt: "next_offset hs (hs ! i) = Some (hs ! Suc i)" by simp
    show ?thesis
      by (simp add: file_data_bounds_not_last [OF nxt] up_to_next_bounds_readable [OF n x]
            adjacent)
  qed
  have empty: "slice data (hs ! Suc i) (hs ! Suc i) = []"
    by (simp add: slice_def)
  have writer: "file_data_bounds data hs offset (filename_length st) = (fl, Inr (start, stop))
      \<Longrightarrow> new_zip (process_entry w data hs (i, offset) st)
          = state_after
              (w (new_zip st) (entry_filename i (extract_filename_from_header data offset))
                 (slice data start stop))"
    by (simp add: process_entry_new_zip)
  have beyond: "length data \<le> stop \<Longrightarrow> slice data start stop = drop start data"
    by (simp add: slice_def)
  have inverted: "stop \<le> start \<Longrightarrow> slice data start stop = []"
    by (simp add: slice_def)
  have positions: "\<forall>k < length (slice data start stop).
      slice data start stop ! k = data ! (start + k)"
    using slice_nth [of _ data start stop] by blast
  from scenario empty writer beyond inverted positions slice_length_clipped [of data start stop]
  show ?thesis by blast
qed

theorem payload_slice_is_clipped_witness:
  "local_headers (find_file_signatures adjacent_buf) = [0, 31]
   \<and> unpack_H (slice adjacent_buf (0 + 26) (0 + 28)) = Inr 1
   \<and> unpack_H (slice adjacent_buf (0 + 28) (0 + 30)) = Inr 0
   \<and> file_data_bounds adjacent_buf [0, 31] 0 None = (Some 1, Inr (31, 31))
   \<and> slice adjacent_buf 31 31 = []
   \<and> new_zip (process_entry list_writer adjacent_buf [0, 31] (0, 0)
        \<lparr>filename_length = None, new_zip = [], printed = []\<rparr>) = [([0x61], [])]
   \<and> slice adjacent_buf 61 1048637 = drop 61 adjacent_buf
   \<and> slice adjacent_buf 61 1048637 = [0x62]
   \<and> slice adjacent_buf 61 1048637 ! 0 = adjacent_buf ! 61
   \<and> slice adjacent_buf 70 60 = []"
proof -
  have len: "length adjacent_buf = 62"
    by (simp add: adjacent_buf_def)
  have last: "drop 61 adjacent_buf = [0x62]"
    by (simp add: adjacent_buf_def)
  have name: "extract_filename_from_header adjacent_buf 0 = Some [0x61]"
    by (simp add: extract_filename_from_header_def unpack_H_def slice_def adjacent_buf_def
          decode_utf8_replace_def)
  from payload_slice_is_clipped [of adjacent_buf 1048637 61, THEN conjunct1] len
  have beyond: "slice adjacent_buf 61 1048637 = drop 61 adjacent_buf"
    by simp
  from payload_slice_is_clipped
    [of adjacent_buf 1048637 61, THEN conjunct2, THEN conjunct2, THEN conjunct2, THEN conjunct1]
    beyond last
  have position: "slice adjacent_buf 61 1048637 ! 0 = adjacent_buf ! 61"
    by simp
  from payload_slice_is_clipped [of adjacent_buf 60 70, THEN conjunct2, THEN conjunct1]
  have inverted: "slice adjacent_buf 70 60 = []"
    by simp
  from payload_slice_is_clipped
    [where data = adjacent_buf and hs = "[0, 31]" and i = 0 and n = 1 and x = 0
       and fl' = None,
     THEN conjunct2, THEN conjunct2, THEN conjunct2, THEN conjunct2, THEN conjunct2]
    adjacent_headers adjacent_fields
  have scenario: "file_data_bounds adjacent_buf [0, 31] 0 None = (Some 1, Inr (31, 31))
      \<and> slice adjacent_buf 31 31 = []"
    by simp
  from payload_slice_is_clipped
    [where data = adjacent_buf and hs = "[0, 31]" and offset = 0 and i = 0
       and st = "\<lparr>filename_length = None, new_zip = [], printed = []\<rparr>"
       and fl = "Some 1" and start = 31 and stop = 31 and w = list_writer,
     THEN conjunct2, THEN conjunct2, THEN conjunct2, THEN conjunct2, THEN conjunct1]
    scenario name
  have written: "new_zip (process_entry list_writer adjacent_buf [0, 31] (0, 0)
        \<lparr>filename_length = None, new_zip = [], printed = []\<rparr>) = [([0x61], [])]"
    by (simp add: entry_filename_def list_writer_def)
  from beyond last position inverted scenario written adjacent_headers adjacent_fields
  show ?thesis
    by simp
qed

section \<open>Filenames\<close>

text \<open>
  C6 as stated fails on the replacement, which is not per invalid byte: the two
  filename bytes \<open>E2 82\<close> of \<open>truncated_name_buf\<close> start no well-formed sequence, so a
  placeholder per invalid byte gives two placeholders; the extracted filename has one.
  It is also only the filename-length field that decides failure: in \<open>cut_header_buf\<close>
  the 30 bytes of fixed header fields are not all there (reading the extra-field
  length raises), and extraction still succeeds, with the empty text.
\<close>

theorem filename_extraction_counterexample:
  "length cut_header_buf = 28
   \<and> unpack_H (slice cut_header_buf (0 + 28) (0 + 30)) = Inl StructError
   \<and> extract_filename_from_header cut_header_buf 0 = Some []
   \<and> extract_filename_from_header cut_header_buf 0 \<noteq> None
   \<and> unpack_H (slice truncated_name_buf (0 + 26) (0 + 28)) = Inr 2
   \<and> slice truncated_name_buf (0 + 30) (0 + 30 + 2) = [0xE2, 0x82]
   \<and> replace_per_invalid_byte (map unat (slice truncated_name_buf (0 + 30) (0 + 30 + 2)))
       = [0xFFFD, 0xFFFD]
   \<and> extract_filename_from_header truncated_name_buf 0 = Some [0xFFFD]
   \<and> extract_filename_from_header truncated_name_buf 0
       \<noteq> Some (replace_per_invalid_byte
                 (map unat (slice truncated_name_buf (0 + 30) (0 + 30 + 2))))"
  using truncated_name_bytes truncated_name_extracted cut_header_extracted
  by (simp add: is_continuation_def)

text \<open>
  C6, amended. Filename extraction fails exactly when the buffer ends before
  \<open>offset + 28\<close>, so that the two-byte filename-length field cannot be read in full;
  otherwise it returns the decoded filename bytes. Decoding cannot fail, and at every
  point of the filename bytes it does one of two things: where a well-formed sequence
  starts, it yields the code point of that sequence and goes on after it; where none
  starts, it yields one placeholder U+FFFD for the whole error range (the longest
  beginning of a well-formed sequence found there, one to three bytes, and one byte
  when the first byte begins none) and goes on after that range. So a byte that cannot
  start a sequence and a sequence cut off after one, two or three bytes each give one
  placeholder, ASCII bytes decode to themselves, and the decoded text is never longer
  than the filename bytes and is empty only when there are none. On extraction failure,
  or when the extracted filename is empty, the name of entry \<open>i\<close> is
  \<open>recovered_file_<i>.bin\<close> with \<open>i\<close> in decimal; a non-empty extracted filename is kept.
  In a run the offsets are strictly ascending, iteration \<open>k\<close> processes the offset at
  position \<open>k\<close> with the index \<open>k\<close>, and the loop body offers the entry to the writer,
  and reports an entry it recovers, under this name. The synthesized names of
  different indices are different.
\<close>

theorem filename_extraction_and_naming:
  "(extract_filename_from_header data offset = None \<longleftrightarrow> length data < offset + 28)
   \<and> (extract_filename_from_header data offset = Some t \<longleftrightarrow>
        (\<exists>n. unpack_H (slice data (offset + 26) (offset + 28)) = Inr n
           \<and> t = decode_utf8_replace (slice data (offset + 30) (offset + 30 + n))))
   \<and> (decode_utf8_replace bs = [] \<longleftrightarrow> bs = [])
   \<and> length (decode_utf8_replace bs) \<le> length bs
   \<and> ((\<forall>b\<in>set bs. b < 0x80) \<longrightarrow> decode_utf8_replace bs = map unat bs)
   \<and> ((0x80 \<le> lead \<and> lead < 0xC2) \<or> 0xF5 \<le> lead \<longrightarrow>
        utf8_replace (lead # rest) = 0xFFFD # utf8_replace rest)
   \<and> (0xE0 \<le> lead \<and> lead < 0xF0 \<and> is_continuation second
        \<and> (if second < 0xA0 then lead \<noteq> 0xE0 else lead \<noteq> 0xED) \<longrightarrow>
        utf8_replace [lead, second] = [0xFFFD])
   \<and> (0xF0 \<le> lead \<and> lead < 0xF5 \<and> is_continuation second
        \<and> (if second < 0x90 then lead \<noteq> 0xF0 else lead \<noteq> 0xF4) \<and> is_continuation third \<longrightarrow>
        utf8_replace [lead, second, third] = [0xFFFD])
   \<and> (k < length hs \<longrightarrow> enumerate 0 hs ! k = (k, hs ! k))
   \<and> (\<exists>m. printed (process_entry w data hs (i, offset) st) = printed st @ [m]
          \<and> (m = RecoveredFile (entry_filename i (extract_filename_from_header data offset))
               \<or> (\<exists>e. m = ErrorProcessing offset e)))
   \<and> entry_filename i None = recovered_file_name i
   \<and> entry_filename i (Some []) = recovered_file_name i
   \<and> (t \<noteq> [] \<longrightarrow> entry_filename i (Some t) = t)
   \<and> recovered_file_name i = ascii ''recovered_file_'' @ decimal i @ ascii ''.bin''
   \<and> set (decimal i) \<subseteq> {48..57}
   \<and> foldl (\<lambda>a d. 10 * a + (d - 48)) 0 (decimal i) = i
   \<and> (recovered_file_name i = recovered_file_name j \<longleftrightarrow> i = j)
   \<and> decode_utf8_replace bs = utf8_replace (map unat bs)
   \<and> utf8_replace (lead # rest) =
       (if sequence_at (lead # rest) \<noteq> 0
        then scalar_value (take (sequence_at (lead # rest)) (lead # rest))
               # utf8_replace (drop (sequence_at (lead # rest)) (lead # rest))
        else 0xFFFD # utf8_replace (drop (error_range (lead # rest)) (lead # rest)))
   \<and> sequence_at (lead # rest) \<le> 4
   \<and> sequence_at (lead # rest) \<le> length (lead # rest)
   \<and> 1 \<le> error_range (lead # rest)
   \<and> error_range (lead # rest) \<le> 3
   \<and> error_range (lead # rest) \<le> length (lead # rest)
   \<and> sorted_wrt (<) (local_headers (find_file_signatures data))
   \<and> (hs = local_headers (find_file_signatures data) \<and> k < length hs \<longrightarrow>
        state_before w z data (Suc k)
          = process_entry w data hs (k, hs ! k) (state_before w z data k))
   \<and> new_zip (process_entry w data hs (i, offset) st) =
       replay w (new_zip st)
         (case snd (file_data_bounds data hs offset (filename_length st)) of
            Inl e \<Rightarrow> []
          | Inr (a, b) \<Rightarrow>
              [(entry_filename i (extract_filename_from_header data offset),
                slice data a b)])"
proof -
  have ascii_bytes: "(\<forall>b\<in>set bs. b < 0x80) \<longrightarrow> decode_utf8_replace bs = map unat bs"
  proof
    assume "\<forall>b\<in>set bs. b < 0x80"
    then have "\<forall>ch\<in>set (map unat bs). ch < 0x80"
      by (auto simp: word_less_nat_alt)
    then show "decode_utf8_replace bs = map unat bs"
      unfolding decode_utf8_replace_def by (rule utf8_replace_ascii)
  qed
  have empty: "decode_utf8_replace bs = [] \<longleftrightarrow> bs = []"
    by (simp add: decode_utf8_replace_def utf8_replace_Nil_iff)
  have shorter: "length (decode_utf8_replace bs) \<le> length bs"
    using utf8_replace_length [of "map unat bs"] by (simp add: decode_utf8_replace_def)
  have stray: "(0x80 \<le> lead \<and> lead < 0xC2) \<or> 0xF5 \<le> lead \<longrightarrow>
      utf8_replace (lead # rest) = 0xFFFD # utf8_replace rest"
    using utf8_replace_stray [of lead rest] by blast
  have cut_three: "0xE0 \<le> lead \<and> lead < 0xF0 \<and> is_continuation second
        \<and> (if second < 0xA0 then lead \<noteq> 0xE0 else lead \<noteq> 0xED) \<longrightarrow>
        utf8_replace [lead, second] = [0xFFFD]"
    using utf8_replace_cut_off_three [of lead second] by blast
  have cut_four: "0xF0 \<le> lead \<and> lead < 0xF5 \<and> is_continuation second
        \<and> (if second < 0x90 then lead \<noteq> 0xF0 else lead \<noteq> 0xF4) \<and> is_continuation third \<longrightarrow>
        utf8_replace [lead, second, third] = [0xFFFD]"
    using utf8_replace_cut_off_four [of lead second third] by blast
  have index: "k < length hs \<longrightarrow> enumerate 0 hs ! k = (k, hs ! k)"
    by (simp add: nth_enumerate_eq)
  have kept: "t \<noteq> [] \<longrightarrow> entry_filename i (Some t) = t"
    by (simp add: entry_filename_cases)
  have seq4: "sequence_at (lead # rest) \<le> 4"
    and seq_len: "sequence_at (lead # rest) \<le> length (lead # rest)"
    using sequence_at_bounds [of "lead # rest"] by blast+
  have range1: "1 \<le> error_range (lead # rest)"
    and range3: "error_range (lead # rest) \<le> 3"
    and range_len: "error_range (lead # rest) \<le> length (lead # rest)"
    using error_range_bounds [of "lead # rest"] by simp_all
  have run: "hs = local_headers (find_file_signatures data) \<and> k < length hs \<longrightarrow>
      state_before w z data (Suc k)
        = process_entry w data hs (k, hs ! k) (state_before w z data k)"
    by (intro impI, elim conjE) (rule state_before_Suc)
  from extract_filename_None [of data offset] extract_filename_Some [of data offset t]
    empty shorter ascii_bytes stray cut_three cut_four index
    process_entry_printed [of w data hs i offset st]
    entry_filename_cases(1) [of i] entry_filename_cases(2) [of i] kept
    recovered_file_name_def [of i] decimal_digits [of i] decimal_value [of i]
    recovered_file_name_inj [of i j]
    decode_utf8_replace_def [of bs] utf8_replace_policy [of lead rest]
    seq4 seq_len range1 range3 range_len local_headers_sorted [of data] run
    process_entry_new_zip [of w data hs i offset st]
  show ?thesis
    by - (intro conjI, assumption+)
qed

theorem filename_extraction_and_naming_witness:
  "extract_filename_from_header [0x50, 0x4B, 0x03, 0x04] 0 = None
   \<and> entry_filename 0 (extract_filename_from_header [0x50, 0x4B, 0x03, 0x04] 0)
       = ascii ''recovered_file_0.bin''
   \<and> extract_filename_from_header truncated_name_buf 0 = Some [0xFFFD]
   \<and> entry_filename 3 (extract_filename_from_header truncated_name_buf 0) = [0xFFFD]
   \<and> utf8_replace [0xE2, 0x82] = [0xFFFD]
   \<and> utf8_replace [0xF0, 0x9F, 0x98] = [0xFFFD]
   \<and> utf8_replace [0xFF, 0x41] = [0xFFFD, 0x41]
   \<and> sequence_at [0x61, 0xE2, 0x82] = 1
   \<and> sequence_at [0xE2, 0x82] = 0 \<and> error_range [0xE2, 0x82] = 2
   \<and> utf8_replace [0x61, 0xE2, 0x82] = [0x61, 0xFFFD]
   \<and> utf8_replace [0xF0, 0x9F] = [0xFFFD]
   \<and> local_headers (find_file_signatures two_entries_buf) = [0, 33]
   \<and> state_before list_writer [] two_entries_buf (Suc 1)
       = process_entry list_writer two_entries_buf [0, 33] (1, 33)
           (state_before list_writer [] two_entries_buf 1)
   \<and> enumerate 0 [0, 33 :: nat] ! 1 = (1, 33)
   \<and> decode_utf8_replace [0x61, 0x2E, 0x74, 0x78, 0x74] = ascii ''a.txt''
   \<and> recovered_file_name 3 \<noteq> recovered_file_name 12"
proof -
  note short = filename_extraction_and_naming
    [where data = "[0x50, 0x4B, 0x03, 0x04]" and offset = 0 and t = "[0xFFFD]"
       and bs = "[]" and lead = "0xE2" and second = "0x82" and third = "0x80"
       and rest = "[]" and i = 0 and j = 0 and k = 0 and hs = "[0]"
       and w = list_writer and z = "[]"
       and st = "\<lparr>filename_length = None, new_zip = [], printed = []\<rparr>"]
  note cut = filename_extraction_and_naming
    [where data = truncated_name_buf and offset = 0 and t = "[0xFFFD]"
       and bs = "[0x61, 0x2E, 0x74, 0x78, 0x74]" and lead = "0xE2" and second = "0x82"
       and third = "0x80" and rest = "[]" and i = 3 and j = 12 and k = 0 and hs = "[0]"
       and w = list_writer and z = "[]"
       and st = "\<lparr>filename_length = None, new_zip = [], printed = []\<rparr>"]
  from short have none: "extract_filename_from_header [0x50, 0x4B, 0x03, 0x04] 0 = None"
    by (simp del: utf8_replace.simps(2))
  from short have "entry_filename 0 None = ascii ''recovered_file_'' @ decimal 0 @ ascii ''.bin''"
    by (simp del: utf8_replace.simps(2))
  then have synthesized: "entry_filename 0 None = ascii ''recovered_file_0.bin''"
    by (simp add: decimal.simps [of 0] ascii_def)
  from cut have replaced: "utf8_replace [0xE2, 0x82] = [0xFFFD]"
    by (simp add: is_continuation_def del: utf8_replace.simps(2))
  have "(extract_filename_from_header truncated_name_buf 0 = Some [0xFFFD]) =
        (\<exists>n. unpack_H (slice truncated_name_buf (0 + 26) (0 + 28)) = Inr n
           \<and> [0xFFFD] = decode_utf8_replace (slice truncated_name_buf (0 + 30) (0 + 30 + n)))"
    using cut by blast
  then have extracted: "extract_filename_from_header truncated_name_buf 0 = Some [0xFFFD]"
    using truncated_name_bytes
    by (simp add: decode_utf8_replace_def replaced del: utf8_replace.simps(2))
  from cut have kept: "entry_filename 3 (Some [0xFFFD]) = [0xFFFD]"
    by (simp del: utf8_replace.simps(2))
  have "(\<forall>b\<in>set [0x61, 0x2E, 0x74, 0x78, 0x74 :: byte]. b < 0x80) \<longrightarrow>
      decode_utf8_replace [0x61, 0x2E, 0x74, 0x78, 0x74]
        = map unat [0x61, 0x2E, 0x74, 0x78, 0x74 :: byte]"
    using cut by blast
  then have plain: "decode_utf8_replace [0x61, 0x2E, 0x74, 0x78, 0x74] = ascii ''a.txt''"
    by (simp add: ascii_def)
  note four = filename_extraction_and_naming
    [where data = truncated_name_buf and offset = 0 and t = "[0xFFFD]"
       and bs = "[]" and lead = "0xF0" and second = "0x9F" and third = "0x98"
       and rest = "[]" and i = 1 and j = 1 and k = 1 and hs = "[0, 33]"
       and w = list_writer and z = "[]"
       and st = "\<lparr>filename_length = None, new_zip = [], printed = []\<rparr>"]
  from four have cut_four: "utf8_replace [0xF0, 0x9F, 0x98] = [0xFFFD]"
    by (simp add: is_continuation_def del: utf8_replace.simps(2))
  from four have index: "enumerate 0 [0, 33 :: nat] ! 1 = (1, 33)"
    by (simp del: utf8_replace.simps(2))
  note high = filename_extraction_and_naming
    [where data = truncated_name_buf and offset = 0 and t = "[0xFFFD]"
       and bs = "[]" and lead = "0xFF" and second = "0x9F" and third = "0x98"
       and rest = "[0x41]" and i = 1 and j = 1 and k = 1 and hs = "[0, 33]"
       and w = list_writer and z = "[]"
       and st = "\<lparr>filename_length = None, new_zip = [], printed = []\<rparr>"]
  from high have "utf8_replace [0xFF, 0x41] = 0xFFFD # utf8_replace [0x41]"
    by (simp del: utf8_replace.simps(2))
  then have stray: "utf8_replace [0xFF, 0x41] = [0xFFFD, 0x41]"
    by (simp add: utf8_replace_single del: utf8_replace.simps(2))
  note evaluate = sequence_at_def error_range_def valid_prefix_def scalar_value_def
    seq_length_def second_ok_def is_continuation_def
  have at_a: "sequence_at [0x61, 0xE2, 0x82] = 1"
    and at_cut: "sequence_at [0xE2, 0x82] = 0" "error_range [0xE2, 0x82] = 2"
    by (simp_all add: evaluate)
  note range_two = filename_extraction_and_naming
    [where data = two_entries_buf and offset = 0 and t = "[0xFFFD]"
       and bs = "[]" and lead = "0xE2" and second = "0x9F" and third = "0x98"
       and rest = "[0x82]" and i = 1 and j = 1 and k = 1 and hs = "[0, 33]"
       and w = list_writer and z = "[]"
       and st = "\<lparr>filename_length = None, new_zip = [], printed = []\<rparr>"]
  from range_two have "utf8_replace (0xE2 # [0x82]) =
       (if sequence_at (0xE2 # [0x82]) \<noteq> 0
        then scalar_value (take (sequence_at (0xE2 # [0x82])) (0xE2 # [0x82]))
               # utf8_replace (drop (sequence_at (0xE2 # [0x82])) (0xE2 # [0x82]))
        else 0xFFFD # utf8_replace (drop (error_range (0xE2 # [0x82])) (0xE2 # [0x82])))"
    by (elim conjE)
  then have whole_range: "utf8_replace [0xE2, 0x82] = [0xFFFD]"
    by (simp add: at_cut del: utf8_replace.simps(2))
  note after_a = filename_extraction_and_naming
    [where data = two_entries_buf and offset = 0 and t = "[0xFFFD]"
       and bs = "[]" and lead = "0x61" and second = "0x9F" and third = "0x98"
       and rest = "[0xE2, 0x82]" and i = 1 and j = 1 and k = 1 and hs = "[0, 33]"
       and w = list_writer and z = "[]"
       and st = "\<lparr>filename_length = None, new_zip = [], printed = []\<rparr>"]
  from after_a have "utf8_replace (0x61 # [0xE2, 0x82]) =
       (if sequence_at (0x61 # [0xE2, 0x82]) \<noteq> 0
        then scalar_value (take (sequence_at (0x61 # [0xE2, 0x82])) (0x61 # [0xE2, 0x82]))
               # utf8_replace (drop (sequence_at (0x61 # [0xE2, 0x82])) (0x61 # [0xE2, 0x82]))
        else 0xFFFD
               # utf8_replace (drop (error_range (0x61 # [0xE2, 0x82])) (0x61 # [0xE2, 0x82])))"
    by (elim conjE)
  then have in_context: "utf8_replace [0x61, 0xE2, 0x82] = [0x61, 0xFFFD]"
    by (simp add: at_a whole_range scalar_value_def del: utf8_replace.simps(2))
  from after_a have "[0, 33] = local_headers (find_file_signatures two_entries_buf)
        \<and> 1 < length [0, 33 :: nat] \<longrightarrow>
      state_before list_writer [] two_entries_buf (Suc 1)
        = process_entry list_writer two_entries_buf [0, 33] (1, [0, 33] ! 1)
            (state_before list_writer [] two_entries_buf 1)"
    by (elim conjE)
  then have in_run: "state_before list_writer [] two_entries_buf (Suc 1)
       = process_entry list_writer two_entries_buf [0, 33] (1, 33)
           (state_before list_writer [] two_entries_buf 1)"
    by (simp add: headers_two_entries_buf)
  note lead_four = filename_extraction_and_naming
    [where data = two_entries_buf and offset = 0 and t = "[0xFFFD]"
       and bs = "[]" and lead = "0xF0" and second = "0x9F" and third = "0x98"
       and rest = "[0x9F]" and i = 1 and j = 1 and k = 1 and hs = "[0, 33]"
       and w = list_writer and z = "[]"
       and st = "\<lparr>filename_length = None, new_zip = [], printed = []\<rparr>"]
  from lead_four have "utf8_replace (0xF0 # [0x9F]) =
       (if sequence_at (0xF0 # [0x9F]) \<noteq> 0
        then scalar_value (take (sequence_at (0xF0 # [0x9F])) (0xF0 # [0x9F]))
               # utf8_replace (drop (sequence_at (0xF0 # [0x9F])) (0xF0 # [0x9F]))
        else 0xFFFD # utf8_replace (drop (error_range (0xF0 # [0x9F])) (0xF0 # [0x9F])))"
    by (elim conjE)
  then have two_of_four: "utf8_replace [0xF0, 0x9F] = [0xFFFD]"
    by (simp add: evaluate del: utf8_replace.simps(2))
  have "(recovered_file_name 3 = recovered_file_name 12) = ((3 :: nat) = 12)"
    using cut by blast
  then have distinct_names: "recovered_file_name 3 \<noteq> recovered_file_name 12"
    by simp
  from none synthesized replaced extracted kept plain distinct_names cut_four index stray
    at_a at_cut in_context two_of_four in_run headers_two_entries_buf
  show ?thesis
    by (simp del: utf8_replace.simps(2))
qed

section \<open>Failures of single entries\<close>

text \<open>
  C7. Whenever at least one local header is found the run returns success and a
  container, for every writer. An exception of one entry is caught and reported by the
  loop body: when reading the header fields raises, the body prints the error with
  the entry's offset and that exception and leaves the container alone; when the
  writer raises, it prints the error with the entry's offset; when the filename
  extraction fails, reading the length fields raises as well and the entry is
  reported with \<open>struct.error\<close>. The loop then goes on with the next offset, from the
  state the failed iteration left: every header offset gets exactly one message, in
  the order of the offsets, the message of a failed entry is its error, and every
  entry whose slice could be cut is offered to the writer, in order, whether or not
  earlier calls of the writer raised.
\<close>

theorem entry_failures_do_not_stop_the_run:
  assumes hs: "hs = local_headers (find_file_signatures data)" and some: "hs \<noteq> []"
  shows "success (repair_zip w z data)
     \<and> output_zip (repair_zip w z data) = Some (replay w z (recovered_entries data))
     \<and> (\<exists>ms. messages (repair_zip w z data)
               = FoundEntries (length hs) # ms @ [RepairCompleted]
           \<and> length ms = length hs
           \<and> (\<forall>k<length hs.
                 (ms ! k = RecoveredFile
                            (entry_filename k (extract_filename_from_header data (hs ! k)))
                  \<or> (\<exists>e. ms ! k = ErrorProcessing (hs ! k) e))
                 \<and> (\<forall>fl e.
                       file_data_bounds data hs (hs ! k)
                         (filename_length (state_before w z data k)) = (fl, Inl e)
                       \<longrightarrow> ms ! k = ErrorProcessing (hs ! k) e)
                 \<and> (\<forall>fl a b z'.
                       file_data_bounds data hs (hs ! k)
                         (filename_length (state_before w z data k)) = (fl, Inr (a, b))
                       \<and> w (new_zip (state_before w z data k))
                            (entry_filename k (extract_filename_from_header data (hs ! k)))
                            (slice data a b) = WriteRaised z'
                       \<longrightarrow> ms ! k = ErrorProcessing (hs ! k) WriteError)
                 \<and> (extract_filename_from_header data (hs ! k) = None
                       \<longrightarrow> ms ! k = ErrorProcessing (hs ! k) StructError)))
     \<and> (\<forall>k<length hs.
           state_before w z data (Suc k)
             = process_entry w data hs (k, hs ! k) (state_before w z data k))
     \<and> output_zip (repair_zip w z data)
         = Some (new_zip (state_before w z data (length hs)))
     \<and> (file_data_bounds data hs offset (filename_length st) = (fl, Inl e) \<longrightarrow>
          printed (process_entry w data hs (i, offset) st)
            = printed st @ [ErrorProcessing offset e]
          \<and> new_zip (process_entry w data hs (i, offset) st) = new_zip st)
     \<and> (file_data_bounds data hs offset (filename_length st) = (fl, Inr (a, b))
          \<and> w (new_zip st) (entry_filename i (extract_filename_from_header data offset))
               (slice data a b) = WriteRaised z' \<longrightarrow>
          printed (process_entry w data hs (i, offset) st)
            = printed st @ [ErrorProcessing offset WriteError])
     \<and> (extract_filename_from_header data offset = None \<longrightarrow>
          printed (process_entry w data hs (i, offset) st)
            = printed st @ [ErrorProcessing offset StructError])"
proof -
  let ?final = "state_before w z data (length hs)"
  from some have verdict: "success (repair_zip w z data)"
    unfolding hs by (simp add: repair_zip_def Let_def)
  from some have offered: "output_zip (repair_zip w z data)
      = Some (replay w z (recovered_entries data))"
    unfolding hs by (simp add: repair_zip_output_replay)
  have container: "output_zip (repair_zip w z data) = Some (new_zip ?final)"
    by (simp add: repair_zip_state_before [OF hs some])
  have all: "messages (repair_zip w z data) = printed ?final @ [RepairCompleted]"
    by (simp add: repair_zip_state_before [OF hs some])
  from repair_zip_messages [OF hs some, of w z] obtain ms
    where ms: "messages (repair_zip w z data) = FoundEntries (length hs) # ms @ [RepairCompleted]"
      and len: "length ms = length hs"
      and kinds: "\<And>k. k < length hs \<Longrightarrow>
           ms ! k = RecoveredFile
                      (entry_filename k (extract_filename_from_header data (hs ! k)))
           \<or> (\<exists>e. ms ! k = ErrorProcessing (hs ! k) e)"
    by blast
  from ms all have "printed ?final = FoundEntries (length hs) # ms"
    by simp
  then have nth: "ms ! k = printed ?final ! Suc k" for k
    by simp
  have reported: "ms ! k = m"
    if "k < length hs"
      and "printed (process_entry w data hs (k, hs ! k) (state_before w z data k))
        = printed (state_before w z data k) @ [m]"
    for k m
    using run_message_nth [OF hs that] by (simp only: nth)
  have bounds_raise: "ms ! k = ErrorProcessing (hs ! k) e'"
    if k: "k < length hs"
      and raised: "file_data_bounds data hs (hs ! k)
          (filename_length (state_before w z data k)) = (fl', Inl e')"
    for k fl' e'
  proof -
    from process_entry_bounds_raise [OF raised, of w k]
    have "printed (process_entry w data hs (k, hs ! k) (state_before w z data k))
        = printed (state_before w z data k) @ [ErrorProcessing (hs ! k) e']"
      by (rule conjunct1)
    with k show ?thesis by (rule reported)
  qed
  have writer_raises: "ms ! k = ErrorProcessing (hs ! k) WriteError"
    if k: "k < length hs"
      and cut: "file_data_bounds data hs (hs ! k)
          (filename_length (state_before w z data k)) = (fl', Inr (a', b'))"
      and raised: "w (new_zip (state_before w z data k))
             (entry_filename k (extract_filename_from_header data (hs ! k)))
             (slice data a' b') = WriteRaised z''"
    for k fl' a' b' z''
  proof -
    from cut raised
    have "printed (process_entry w data hs (k, hs ! k) (state_before w z data k))
        = printed (state_before w z data k) @ [ErrorProcessing (hs ! k) WriteError]"
      by (rule process_entry_writer_raises)
    with k show ?thesis by (rule reported)
  qed
  have no_name: "ms ! k = ErrorProcessing (hs ! k) StructError"
    if k: "k < length hs" and failed: "extract_filename_from_header data (hs ! k) = None"
    for k
  proof -
    from failed
    have "printed (process_entry w data hs (k, hs ! k) (state_before w z data k))
        = printed (state_before w z data k) @ [ErrorProcessing (hs ! k) StructError]"
      by (rule process_entry_extraction_fails)
    with k show ?thesis by (rule reported)
  qed
  have per_entry: "\<forall>k<length hs.
       (ms ! k = RecoveredFile
                  (entry_filename k (extract_filename_from_header data (hs ! k)))
        \<or> (\<exists>e. ms ! k = ErrorProcessing (hs ! k) e))
       \<and> (\<forall>fl e.
             file_data_bounds data hs (hs ! k)
               (filename_length (state_before w z data k)) = (fl, Inl e)
             \<longrightarrow> ms ! k = ErrorProcessing (hs ! k) e)
       \<and> (\<forall>fl a b z'.
             file_data_bounds data hs (hs ! k)
               (filename_length (state_before w z data k)) = (fl, Inr (a, b))
             \<and> w (new_zip (state_before w z data k))
                  (entry_filename k (extract_filename_from_header data (hs ! k)))
                  (slice data a b) = WriteRaised z'
             \<longrightarrow> ms ! k = ErrorProcessing (hs ! k) WriteError)
       \<and> (extract_filename_from_header data (hs ! k) = None
             \<longrightarrow> ms ! k = ErrorProcessing (hs ! k) StructError)"
  proof (intro allI impI conjI)
    fix k assume "k < length hs"
    then show "ms ! k = RecoveredFile
                  (entry_filename k (extract_filename_from_header data (hs ! k)))
        \<or> (\<exists>e. ms ! k = ErrorProcessing (hs ! k) e)"
      by (rule kinds)
  next
    fix k fl e
    assume "k < length hs"
      and "file_data_bounds data hs (hs ! k)
             (filename_length (state_before w z data k)) = (fl, Inl e)"
    then show "ms ! k = ErrorProcessing (hs ! k) e"
      by (rule bounds_raise)
  next
    fix k fl a b z'
    assume "k < length hs"
      and "file_data_bounds data hs (hs ! k)
               (filename_length (state_before w z data k)) = (fl, Inr (a, b))
             \<and> w (new_zip (state_before w z data k))
                  (entry_filename k (extract_filename_from_header data (hs ! k)))
                  (slice data a b) = WriteRaised z'"
    then show "ms ! k = ErrorProcessing (hs ! k) WriteError"
      using writer_raises [of k fl a b z'] by simp
  next
    fix k
    assume "k < length hs" and "extract_filename_from_header data (hs ! k) = None"
    then show "ms ! k = ErrorProcessing (hs ! k) StructError"
      by (rule no_name)
  qed
  have run: "\<exists>ms. messages (repair_zip w z data)
               = FoundEntries (length hs) # ms @ [RepairCompleted]
           \<and> length ms = length hs
           \<and> (\<forall>k<length hs.
                 (ms ! k = RecoveredFile
                            (entry_filename k (extract_filename_from_header data (hs ! k)))
                  \<or> (\<exists>e. ms ! k = ErrorProcessing (hs ! k) e))
                 \<and> (\<forall>fl e.
                       file_data_bounds data hs (hs ! k)
                         (filename_length (state_before w z data k)) = (fl, Inl e)
                       \<longrightarrow> ms ! k = ErrorProcessing (hs ! k) e)
                 \<and> (\<forall>fl a b z'.
                       file_data_bounds data hs (hs ! k)
                         (filename_length (state_before w z data k)) = (fl, Inr (a, b))
                       \<and> w (new_zip (state_before w z data k))
                            (entry_filename k (extract_filename_from_header data (hs ! k)))
                            (slice data a b) = WriteRaised z'
                       \<longrightarrow> ms ! k = ErrorProcessing (hs ! k) WriteError)
                 \<and> (extract_filename_from_header data (hs ! k) = None
                       \<longrightarrow> ms ! k = ErrorProcessing (hs ! k) StructError))"
    using ms len per_entry by (intro exI [of _ ms] conjI)
  have continues: "\<forall>k<length hs.
       state_before w z data (Suc k)
         = process_entry w data hs (k, hs ! k) (state_before w z data k)"
    by (intro allI impI) (rule state_before_Suc [OF hs])
  have body_bounds: "file_data_bounds data hs offset (filename_length st) = (fl, Inl e) \<longrightarrow>
      printed (process_entry w data hs (i, offset) st)
        = printed st @ [ErrorProcessing offset e]
      \<and> new_zip (process_entry w data hs (i, offset) st) = new_zip st"
    by (intro impI) (rule process_entry_bounds_raise)
  have body_writer: "file_data_bounds data hs offset (filename_length st) = (fl, Inr (a, b))
      \<and> w (new_zip st) (entry_filename i (extract_filename_from_header data offset))
           (slice data a b) = WriteRaised z' \<longrightarrow>
      printed (process_entry w data hs (i, offset) st)
        = printed st @ [ErrorProcessing offset WriteError]"
    by (intro impI, elim conjE) (rule process_entry_writer_raises)
  have body_name: "extract_filename_from_header data offset = None \<longrightarrow>
      printed (process_entry w data hs (i, offset) st)
        = printed st @ [ErrorProcessing offset StructError]"
    by (intro impI) (rule process_entry_extraction_fails)
  from verdict offered run continues container body_bounds body_writer body_name
  show ?thesis
    by - (intro conjI, assumption+)
qed

theorem entry_failures_do_not_stop_the_run_witness:
  "local_headers (find_file_signatures two_entries_buf) = [0, 33]
   \<and> success (repair_zip (refusing_writer [0x78]) [] two_entries_buf)
   \<and> recovered_entries two_entries_buf = [([0x78], [0x41, 0x42]), ([0x79, 0x7A], [0x7A])]
   \<and> output_zip (repair_zip (refusing_writer [0x78]) [] two_entries_buf)
       = Some [([0x79, 0x7A], [0x7A])]
   \<and> messages (repair_zip (refusing_writer [0x78]) [] two_entries_buf)
       = [FoundEntries 2, ErrorProcessing 0 WriteError, RecoveredFile [0x79, 0x7A],
          RepairCompleted]
   \<and> file_data_bounds two_entries_buf [0, 33] 0 None = (Some 1, Inr (31, 33))
   \<and> refusing_writer [0x78] [] [0x78] (slice two_entries_buf 31 33) = WriteRaised []
   \<and> printed (process_entry (refusing_writer [0x78]) two_entries_buf [0, 33] (0, 0)
        \<lparr>filename_length = None, new_zip = [], printed = []\<rparr>)
       = [ErrorProcessing 0 WriteError]
   \<and> local_headers (find_file_signatures [0x50, 0x4B, 0x03, 0x04]) = [0]
   \<and> extract_filename_from_header [0x50, 0x4B, 0x03, 0x04] 0 = None
   \<and> messages (repair_zip list_writer [] [0x50, 0x4B, 0x03, 0x04])
       = [FoundEntries 1, ErrorProcessing 0 StructError, RepairCompleted]"
proof -
  let ?st = "\<lparr>filename_length = None, new_zip = [] :: (pystr \<times> byte list) list,
               printed = []\<rparr>"
  have some: "[0, 33] \<noteq> ([] :: nat list)" by simp
  note two = entry_failures_do_not_stop_the_run
    [OF headers_two_entries_buf [symmetric] some,
     where w = "refusing_writer [0x78]" and z = "[]" and offset = 0 and st = ?st
       and fl = "Some 1" and e = StructError and i = 0 and a = 31 and b = 33
       and z' = "[]"]
  from two have verdict: "success (repair_zip (refusing_writer [0x78]) [] two_entries_buf)"
    by (rule conjunct1)
  from two have "output_zip (repair_zip (refusing_writer [0x78]) [] two_entries_buf)
      = Some (replay (refusing_writer [0x78]) [] (recovered_entries two_entries_buf))"
    by (elim conjE)
  then have stored: "output_zip (repair_zip (refusing_writer [0x78]) [] two_entries_buf)
      = Some [([0x79, 0x7A], [0x7A])]"
    by (simp add: two_entries_run refusing_writer_def)
  have cut: "file_data_bounds two_entries_buf [0, 33] 0 (filename_length ?st)
      = (Some 1, Inr (31, 33))"
    using two_entries_bounds(1) by simp
  have raised: "refusing_writer [0x78] (new_zip ?st)
      (entry_filename 0 (extract_filename_from_header two_entries_buf 0))
      (slice two_entries_buf 31 33) = WriteRaised []"
    by (simp add: refusing_writer_def two_entries_names entry_filename_def)
  from two have "file_data_bounds two_entries_buf [0, 33] 0 (filename_length ?st)
        = (Some 1, Inr (31, 33))
      \<and> refusing_writer [0x78] (new_zip ?st)
           (entry_filename 0 (extract_filename_from_header two_entries_buf 0))
           (slice two_entries_buf 31 33) = WriteRaised [] \<longrightarrow>
      printed (process_entry (refusing_writer [0x78]) two_entries_buf [0, 33] (0, 0) ?st)
        = printed ?st @ [ErrorProcessing 0 WriteError]"
    by (elim conjE)
  with cut raised
  have body: "printed (process_entry (refusing_writer [0x78]) two_entries_buf [0, 33] (0, 0) ?st)
      = [ErrorProcessing 0 WriteError]"
    by simp
  have bare: "local_headers (find_file_signatures [0x50, 0x4B, 0x03, 0x04]) = [0]"
    by code_simp
  have one: "[0] \<noteq> ([] :: nat list)" by simp
  have no_name: "extract_filename_from_header [0x50, 0x4B, 0x03, 0x04] 0 = None"
    by (simp add: extract_filename_None)
  note short = entry_failures_do_not_stop_the_run
    [OF bare [symmetric] one,
     where w = list_writer and z = "[]" and offset = 0 and st = ?st
       and fl = None and e = StructError and i = 0 and a = 0 and b = 0 and z' = "[]"]
  from short obtain ms
    where ms: "messages (repair_zip list_writer [] [0x50, 0x4B, 0x03, 0x04])
        = FoundEntries (length [0 :: nat]) # ms @ [RepairCompleted]"
      and len: "length ms = length [0 :: nat]"
      and failed: "extract_filename_from_header [0x50, 0x4B, 0x03, 0x04] ([0] ! 0) = None
        \<longrightarrow> ms ! 0 = ErrorProcessing ([0] ! 0) StructError"
    by (elim conjE exE) simp
  from len obtain m where "ms = [m]"
    by (cases ms) simp_all
  with failed no_name have "ms = [ErrorProcessing 0 StructError]"
    by simp
  with ms have reported: "messages (repair_zip list_writer [] [0x50, 0x4B, 0x03, 0x04])
      = [FoundEntries 1, ErrorProcessing 0 StructError, RepairCompleted]"
    by simp
  from verdict stored body bare no_name reported headers_two_entries_buf two_entries_run
    two_entries_refused_run two_entries_bounds(1) raised
  show ?thesis
    by (simp add: two_entries_names entry_filename_def)
qed

section \<open>Determinism\<close>

text \<open>
  C8. The (filename, payload) pairs of a run are a function of the buffer alone:
  \<open>recovered_entries data\<close>. Whatever writer receives them and whatever the container
  held before, the writer is offered exactly this sequence; a container that stores
  what it is given ends with its earlier content followed by this sequence, so two
  runs on the same buffer store identical sequences of pairs.
\<close>

theorem recovered_entries_depend_on_buffer_only:
  "output_zip (repair_zip w z data)
     = (if local_headers (find_file_signatures data) = [] then None
        else Some (replay w z (recovered_entries data)))
   \<and> output_zip (repair_zip list_writer before data)
     = (if local_headers (find_file_signatures data) = [] then None
        else Some (before @ recovered_entries data))"
  by (simp add: repair_zip_output_replay replay_list_writer)

theorem recovered_entries_depend_on_buffer_only_witness:
  "output_zip (repair_zip list_writer [] two_entries_buf)
     = Some [([0x78], [0x41, 0x42]), ([0x79, 0x7A], [0x7A])]
   \<and> output_zip (repair_zip list_writer [([0x6F], [])] two_entries_buf)
     = Some [([0x6F], []), ([0x78], [0x41, 0x42]), ([0x79, 0x7A], [0x7A])]
   \<and> output_zip (repair_zip failing_writer () two_entries_buf) = Some ()"
  using recovered_entries_depend_on_buffer_only [of list_writer "[]" two_entries_buf "[]"]
    recovered_entries_depend_on_buffer_only
      [of failing_writer "()" two_entries_buf "[([0x6F], [])]"]
  by (simp add: headers_two_entries_buf two_entries_run list_writer_def failing_writer_def)

section \<open>A single header\<close>

text \<open>
  C9. When the scan finds exactly one local header and its two length fields are
  readable, the declared-size branch raises (on the first iteration \<open>filename_length\<close>
  is unbound), the handler computes the bounds from the entry's own length fields, and
  the one entry offered to the writer has the payload
  \<open>data[payload_start : payload_start + 1048576]\<close>, that is at most 1 MiB of what the
  buffer holds from \<open>payload_start = offset + 30 + filename_length + extra_field_length\<close>
  on. The declared compressed size does not enter the result.
\<close>

theorem single_entry_takes_one_mib:
  assumes one: "local_headers (find_file_signatures data) = [offset]"
    and n: "unpack_H (slice data (offset + 26) (offset + 28)) = Inr n"
    and x: "unpack_H (slice data (offset + 28) (offset + 30)) = Inr x"
  shows "(\<exists>e. declared_size_bounds data offset None = Inl e)
     \<and> file_data_bounds data [offset] offset None
         = (Some n, Inr (offset + 30 + n + x, offset + 30 + n + x + 1048576))
     \<and> recovered_entries data
         = [(entry_filename 0 (extract_filename_from_header data offset),
             take 1048576 (drop (offset + 30 + n + x) data))]
     \<and> output_zip (repair_zip w z data)
         = Some (state_after
             (w z (entry_filename 0 (extract_filename_from_header data offset))
                (take 1048576 (drop (offset + 30 + n + x) data))))"
proof -
  define ps where "ps = offset + 30 + n + x"
  let ?name = "entry_filename 0 (extract_filename_from_header data offset)"
  from declared_size_bounds_unbound [of data offset]
  obtain e where e: "declared_size_bounds data offset None = Inl e" ..
  have bounds: "file_data_bounds data [offset] offset None = (Some n, Inr (ps, ps + 1048576))"
    by (simp add: file_data_bounds_def e one_mib_bounds_readable [OF n x] ps_def)
  have payload: "slice data ps (ps + 1048576) = take 1048576 (drop ps data)"
    by (simp add: slice_def)
  have run: "new_zip (fold (process_entry w' data [offset]) (enumerate 0 [offset])
        \<lparr>filename_length = None, new_zip = z', printed = [FoundEntries (length [offset])]\<rparr>)
      = state_after (w' z' ?name (take 1048576 (drop ps data)))"
    for w' :: "'b writer" and z' :: 'b
    by (simp add: process_entry_new_zip bounds payload)
  have out: "output_zip (repair_zip w' z' data)
      = Some (state_after (w' z' ?name (take 1048576 (drop ps data))))"
    for w' :: "'b writer" and z' :: 'b
    using repair_zip_headers [OF one, of w' z'] by (simp only: run) simp
  have "recovered_entries data = [(?name, take 1048576 (drop ps data))]"
    by (simp add: recovered_entries_def out list_writer_def)
  with e bounds out [of w z] show ?thesis
    unfolding ps_def by blast
qed

theorem single_entry_takes_one_mib_witness:
  "local_headers (find_file_signatures single_entry_buf) = [0]
   \<and> unpack_H (slice single_entry_buf (0 + 26) (0 + 28)) = Inr 5
   \<and> unpack_H (slice single_entry_buf (0 + 28) (0 + 30)) = Inr 0
   \<and> unpack_I (slice single_entry_buf (0 + 18) (0 + 22)) = Inr 5
   \<and> recovered_entries single_entry_buf
       = [(ascii ''a.txt'', [0x68, 0x65, 0x6C, 0x6C, 0x6F, 0x21])]"
proof -
  from single_entry_takes_one_mib [OF single_entry_headers single_entry_fields(2,3),
      THEN conjunct2, THEN conjunct2, THEN conjunct1]
  have "recovered_entries single_entry_buf
      = [(entry_filename 0 (extract_filename_from_header single_entry_buf 0),
          take 1048576 (drop (0 + 30 + 5 + 0) single_entry_buf))]" .
  then have "recovered_entries single_entry_buf
      = [(ascii ''a.txt'', [0x68, 0x65, 0x6C, 0x6C, 0x6F, 0x21])]"
    using single_entry_slices(1)
    by (simp add: single_entry_name entry_filename_def ascii_def)
  with single_entry_headers single_entry_fields show ?thesis by simp
qed

section \<open>Disjoint payloads\<close>

text \<open>
  C10. Within one run the payload spans of two different entries are disjoint, whatever
  binding of \<open>filename_length\<close> the loop carries into either iteration: the span of the
  earlier entry ends at the header offset that follows it, and the span of every later
  entry starts after that offset, so no buffer position belongs to both.
\<close>

theorem payload_spans_pairwise_disjoint:
  assumes hs: "hs = local_headers (find_file_signatures data)"
    and ij: "i < j" "j < length hs"
    and first: "file_data_bounds data hs (hs ! i) fl\<^sub>1 = (fl\<^sub>1', Inr (a, b))"
    and later: "file_data_bounds data hs (hs ! j) fl\<^sub>2 = (fl\<^sub>2', Inr (c, d))"
  shows "b = hs ! Suc i \<and> hs ! Suc i < c \<and> {a..<b} \<inter> {c..<d} = {}"
proof -
  have sorted: "sorted_wrt (<) hs"
    unfolding hs by (rule local_headers_sorted)
  from ij have not_last: "Suc i < length hs" and i: "i < length hs" by simp_all
  have nxt: "next_offset hs (hs ! i) = Some (hs ! Suc i)"
    using next_offset_nth [OF sorted i] not_last by simp
  from first have "up_to_next_bounds data (hs ! i) (hs ! Suc i) fl\<^sub>1 = (fl\<^sub>1', Inr (a, b))"
    by (simp add: file_data_bounds_not_last [OF nxt])
  then have b: "b = hs ! Suc i"
    by (rule up_to_next_bounds_stop)
  have "hs ! Suc i \<le> hs ! j"
  proof (cases "Suc i = j")
    case True
    then show ?thesis by simp
  next
    case False
    with ij have "Suc i < j" by simp
    from headers_strictly_ascending [OF hs this ij(2)] show ?thesis by simp
  qed
  moreover from file_data_bounds_start [OF later] have "hs ! j + 30 \<le> c" .
  ultimately have c: "hs ! Suc i < c" by simp
  with b have "{a..<b} \<inter> {c..<d} = {}" by auto
  with b c show ?thesis by blast
qed

theorem payload_spans_pairwise_disjoint_witness:
  "local_headers (find_file_signatures two_entries_buf) = [0, 33]
   \<and> file_data_bounds two_entries_buf [0, 33] 0 None = (Some 1, Inr (31, 33))
   \<and> file_data_bounds two_entries_buf [0, 33] 33 (Some 1) = (Some 1, Inr (64, 65))
   \<and> (33 :: nat) < 64
   \<and> {31..<33} \<inter> {64..<65} = ({} :: nat set)"
  using payload_spans_pairwise_disjoint
    [of "[0, 33]" two_entries_buf 0 1 None "Some 1" 31 33 "Some 1" "Some 1" 64 65]
    two_entries_bounds headers_two_entries_buf
  by simp

end
